theory Spec2Isabelle
  imports Complex_Main "HOL-Library.Multiset" "HOL-Library.Sublist" "HOL-Library.AList"
    "HOL-Library.Char_ord" "HOL-Library.List_Lexorder"
begin

section \<open>Data model (schema.ts, config.ts)\<close>

text \<open>
  The records follow the interfaces of \<open>schema.ts\<close>. A JavaScript \<open>number\<close> that
  carries a score is a \<open>real\<close> (IEEE rounding is not modelled); a \<open>number\<close> that counts
  or indexes is a \<open>nat\<close>; an optional field is an \<open>option\<close>. The fields \<open>id\<close> and
  \<open>text\<close> are written \<open>id'\<close> and \<open>text'\<close>.

  \<open>RerankResult\<close> and \<open>SearchResult\<close> share four field names. \<open>RerankResult\<close> is
  declared first, so that the plain names \<open>id'\<close>, \<open>text'\<close>, \<open>score\<close> and
  \<open>metadata\<close> are the fields of \<open>SearchResult\<close> and those of \<open>RerankResult\<close> are
  written \<open>RerankResult.score\<close> and so on. The \<open>score\<close> of a \<open>RerankResult\<close> is
  declared a \<open>number\<close> but is \<open>undefined\<close> at run time when the scorer's reply is
  shorter than the candidate list: it is a \<open>real option\<close>, \<open>None\<close> for \<open>undefined\<close>.
\<close>

record ChunkMetadata =
  ticketUid :: string
  ticketMask :: string
  ticketSubject :: string
  messageUid :: "string option"
  isOutgoing :: "bool option"
  chunkIndex :: nat
  totalChunks :: nat
  timestamp :: "string option"
  groupId :: "nat option"
  bucketId :: "nat option"

record RerankResult =
  id' :: string
  text' :: string
  score :: "real option"
  originalIndex :: nat
  metadata :: ChunkMetadata

record SearchResult =
  id' :: string
  text' :: string
  score :: real
  metadata :: ChunkMetadata

record ChunkingConfig =
  chunkSize :: nat
  overlap :: nat
  minChunkSize :: nat

record RetrievalConfig =
  semanticTopK :: nat
  keywordTopK :: nat
  rerankTopK :: nat
  minSimilarityScore :: real

record RAGConfig =
  chunking :: ChunkingConfig
  retrieval :: RetrievalConfig

text \<open>
  The errors: \<open>EmbeddingFailed\<close> and \<open>SemanticSearchFailed\<close> are the two
  \<open>throw new Error\<close> of \<open>generateEmbedding\<close> and \<open>semanticSearch\<close>.
\<close>

datatype error = EmbeddingFailed | SemanticSearchFailed

text \<open>The defaults of \<open>loadConfig\<close> when no environment variable is set.\<close>

definition defaultConfig :: RAGConfig where
  "defaultConfig =
     \<lparr> chunking = \<lparr> chunkSize = 500, overlap = 128, minChunkSize = 50 \<rparr>,
       retrieval = \<lparr> semanticTopK = 20, keywordTopK = 10, rerankTopK = 5,
                     minSimilarityScore = 0.5 \<rparr> \<rparr>"

section \<open>Sorting by score\<close>

text \<open>
  \<open>xs.sort((a, b) => b.score - a.score)\<close>: Array.prototype.sort is stable, so this is
  the stable sort by descending score. \<open>sort_key\<close> is a stable insertion sort on
  ascending keys; the key is the negated score.
\<close>

definition sortByScoreDesc :: "('a SearchResult_scheme) list \<Rightarrow> ('a SearchResult_scheme) list" where
  "sortByScoreDesc xs = sort_key (\<lambda>r. - score r) xs"

text \<open>
  The same call on \<open>RerankResult\<close>s, whose score may be \<open>undefined\<close>. The
  comparator \<open>(a, b) => b.score - a.score\<close> then yields \<open>NaN\<close>, which the sort reads
  as \<open>+0\<close>: the two elements compare equal. \<open>sortCompare\<close> is that comparison. The
  sort is the stable insertion sort by it, written as \<open>sort_key\<close> is: an element is
  put before the first element it does not come after. Where every score is a number
  this is the stable sort by descending score; where all elements compare equal it
  leaves the array as it is, as every stable sort does. In between the comparator is
  not consistent and the language leaves the order to the engine.
\<close>

definition sortCompare :: "RerankResult \<Rightarrow> RerankResult \<Rightarrow> real" where
  "sortCompare a b =
     (case (RerankResult.score a, RerankResult.score b) of
        (Some x, Some y) \<Rightarrow> y - x
      | _ \<Rightarrow> 0)"

fun insertReranked :: "RerankResult \<Rightarrow> RerankResult list \<Rightarrow> RerankResult list" where
  "insertReranked x [] = [x]"
| "insertReranked x (y # ys) =
     (if sortCompare x y \<le> 0 then x # y # ys else y # insertReranked x ys)"

definition sortReranked :: "RerankResult list \<Rightarrow> RerankResult list" where
  "sortReranked xs = foldr insertReranked xs []"

text \<open>\<open>xs.map((x, index) => f(x, index))\<close>: Array.prototype.map with the index.\<close>

definition mapIndexed :: "('a \<Rightarrow> nat \<Rightarrow> 'b) \<Rightarrow> 'a list \<Rightarrow> 'b list" where
  "mapIndexed f xs = map (\<lambda>(x, index). f x index) (zip xs [0 ..< length xs])"

section \<open>Chunker (ingest/chunker.ts)\<close>

text \<open>
  A string is a list of characters, one per code unit below 256. \<open>isSpace\<close> is the
  class \<open>\s\<close> on these: tab, line feed, vertical tab, form feed, carriage return,
  space and the no-break space.
\<close>

definition isSpace :: "char \<Rightarrow> bool" where
  "isSpace c \<longleftrightarrow> of_char c \<in> {9, 10, 11, 12, 13, 32, 160 :: nat}"

text \<open>
  \<open>text.split(/\s+/)\<close>: the pieces between maximal runs of whitespace, an empty piece
  where the text starts or ends with whitespace, \<open>[""]\<close> for the empty text.
\<close>

function splitWs :: "string \<Rightarrow> string list" where
  "splitWs s =
     (let w = takeWhile (\<lambda>c. \<not> isSpace c) s;
          rest = dropWhile (\<lambda>c. \<not> isSpace c) s
      in if rest = [] then [w] else w # splitWs (dropWhile isSpace rest))"
  by pat_completeness auto
termination
proof (relation "measure length")
  show "wf (measure length)" by simp
next
  fix s :: string and w rest :: string
  assume r: "rest = dropWhile (\<lambda>c. \<not> isSpace c) s" and ne: "rest \<noteq> []"
  from ne obtain c cs where rest: "rest = c # cs" by (cases rest) simp_all
  have "isSpace (hd (dropWhile (\<lambda>c. \<not> isSpace c) s))"
    using hd_dropWhile[of "\<lambda>c. \<not> isSpace c" s] r ne by simp
  then have "isSpace (hd rest)" by (simp only: r)
  then have "isSpace c" by (simp add: rest)
  then have "dropWhile isSpace rest = dropWhile isSpace cs" by (simp add: rest)
  then have "length (dropWhile isSpace rest) \<le> length cs" by (simp add: length_dropWhile_le)
  moreover have "length rest \<le> length s" unfolding r by (rule length_dropWhile_le)
  ultimately show "(dropWhile isSpace rest, s) \<in> measure length" by (simp add: rest)
qed

text \<open>\<open>text.split(/\s+/).filter((w) => w.length > 0)\<close>.\<close>

definition wordsOf :: "string \<Rightarrow> string list" where
  "wordsOf text = filter (\<lambda>w. length w > 0) (splitWs text)"

text \<open>\<open>xs.slice(start, end)\<close> for \<open>0 \<le> start\<close>; empty when \<open>end \<le> start\<close>.\<close>

definition slice :: "nat \<Rightarrow> nat \<Rightarrow> 'a list \<Rightarrow> 'a list" where
  "slice start end' xs = take (end' - start) (drop start xs)"

text \<open>\<open>ws.join(" ")\<close>.\<close>

fun joinSpace :: "string list \<Rightarrow> string" where
  "joinSpace [] = []"
| "joinSpace [w] = w"
| "joinSpace (w # ws) = w @ CHR '' '' # joinSpace ws"

text \<open>
  The \<open>while\<close> loop of \<open>chunkText\<close>, with its variables \<open>start\<close> and
  \<open>chunks\<close>; \<open>minSize\<close> is \<open>config.chunking.minChunkSize\<close>. \<open>Math.max(1,
  chunkSize - overlap)\<close> is \<open>max 1 (chunkSize - overlap)\<close> on naturals, where the
  difference is 0 when \<open>overlap \<ge> chunkSize\<close>. The loop ends by its \<open>break\<close> or by
  its condition; the measure \<open>length words - start\<close> decreases.
\<close>

function chunkLoop :: "nat \<Rightarrow> string list \<Rightarrow> nat \<Rightarrow> nat \<Rightarrow> nat \<Rightarrow> string list \<Rightarrow> string list" where
  "chunkLoop minSize words chunkSize' overlap' start chunks =
     (if start < length words then
        (let end' = min (start + chunkSize') (length words);
             chunk = joinSpace (slice start end' words);
             chunks' = (if length chunk \<ge> minSize then chunks @ [chunk] else chunks)
         in if end' = length words then chunks'
            else chunkLoop minSize words chunkSize' overlap'
                   (start + max 1 (chunkSize' - overlap')) chunks')
      else chunks)"
  by pat_completeness auto
termination
  by (relation "measure (\<lambda>(minSize, words, chunkSize', overlap', start, chunks). length words - start)")
     auto

text \<open>
  \<open>chunkText(text, chunkSize = config.chunking.chunkSize, overlap =
  config.chunking.overlap)\<close>. The parameters are primed, the configuration has fields
  of the same names.
\<close>

definition chunkText :: "RAGConfig \<Rightarrow> string \<Rightarrow> nat option \<Rightarrow> nat option \<Rightarrow> string list" where
  "chunkText cfg text chunkSize' overlap' =
     (let words = wordsOf text
      in if length words = 0 then []
         else chunkLoop (minChunkSize (chunking cfg)) words
                (case chunkSize' of None \<Rightarrow> chunkSize (chunking cfg) | Some n \<Rightarrow> n)
                (case overlap' of None \<Rightarrow> overlap (chunking cfg) | Some n \<Rightarrow> n)
                0 [])"

text \<open>
  What the specification describes for a misconfiguration: a rejection at call time.
  This definition follows the specification's words, for comparison with
  \<open>chunkText\<close>.
\<close>

datatype configError = OverlapNotBelowChunkSize

definition chunkTextSpec :: "RAGConfig \<Rightarrow> string \<Rightarrow> nat \<Rightarrow> nat \<Rightarrow> configError + string list" where
  "chunkTextSpec cfg text chunkSize' overlap' =
     (if overlap' \<ge> chunkSize' then Inl OverlapNotBelowChunkSize
      else Inr (chunkText cfg text (Some chunkSize') (Some overlap')))"

text \<open>
  Putting chunks back together: the first chunk's words, then of every further chunk
  the words after its first \<open>overlap\<close> ones.
\<close>

fun stitch :: "nat \<Rightarrow> 'a list list \<Rightarrow> 'a list" where
  "stitch overlap' [] = []"
| "stitch overlap' (c # cs) = c @ concat (map (drop overlap') cs)"

text \<open>The configuration with the minimum chunk size set to 0: no chunk is dropped.\<close>

definition noFloor :: "RAGConfig \<Rightarrow> RAGConfig" where
  "noFloor cfg = cfg\<lparr>chunking := (chunking cfg)\<lparr>minChunkSize := 0\<rparr>\<rparr>"

section \<open>Vector store (db/vectra.ts, db/chroma.ts) and retrieval (rag/selector.ts)\<close>

text \<open>
  The index behind the store is external, and the store is taken as initialised.
  \<open>keywordHits\<close> is what \<open>metaKeywordSearch(query, topK)\<close> returns (it catches the
  failures of its search and returns \<open>[]\<close>); \<open>queryItems\<close> is the raw answer of
  the index to the vector query, \<open>None\<close> when the query throws.
\<close>

record VectorIndex =
  keywordHits :: "string \<Rightarrow> nat \<Rightarrow> SearchResult list"
  queryItems :: "real list \<Rightarrow> nat \<Rightarrow> SearchResult list option"

definition metaKeywordSearch :: "VectorIndex \<Rightarrow> string \<Rightarrow> nat option \<Rightarrow> SearchResult list" where
  "metaKeywordSearch idx query topK =
     keywordHits idx query (case topK of None \<Rightarrow> 10 | Some k \<Rightarrow> k)"

text \<open>\<open>semanticSearch(queryEmbedding, topK = 20, minScore = 0.5)\<close>.\<close>

definition semanticSearch ::
  "VectorIndex \<Rightarrow> real list \<Rightarrow> nat option \<Rightarrow> real option \<Rightarrow> error + SearchResult list" where
  "semanticSearch idx queryEmbedding topK minScore =
     (case queryItems idx queryEmbedding (case topK of None \<Rightarrow> 20 | Some k \<Rightarrow> k) of
        None \<Rightarrow> Inl SemanticSearchFailed
      | Some results \<Rightarrow>
          Inr (filter (\<lambda>result. score result \<ge> (case minScore of None \<Rightarrow> 0.5 | Some m \<Rightarrow> m))
                 results))"

text \<open>
  \<open>resultsMap\<close> is a JavaScript \<open>Map\<close>: \<open>set\<close> on a present key replaces the
  value and keeps the key's position, \<open>set\<close> on a new key appends, and \<open>values()\<close>
  iterates in insertion order. That is an association list with \<open>AList.update\<close>.
\<close>

type_synonym resultsMap = "(string \<times> SearchResult) list"

definition addKeyword :: "resultsMap \<Rightarrow> SearchResult \<Rightarrow> resultsMap" where
  "addKeyword resultsMap result =
     AList.update (id' result) (result\<lparr>score := score result * 1.2\<rparr>) resultsMap"

definition addSemantic :: "resultsMap \<Rightarrow> SearchResult \<Rightarrow> resultsMap" where
  "addSemantic resultsMap result =
     (case map_of resultsMap (id' result) of
        Some existing \<Rightarrow>
          AList.update (id' result)
            (result\<lparr>score := (score existing + score result) / 2\<rparr>) resultsMap
      | None \<Rightarrow> AList.update (id' result) result resultsMap)"

text \<open>
  The two \<open>forEach\<close> loops of \<open>hybridSearch\<close>, then the sort of the values. The
  parameters \<open>keywordTopK = 10\<close> and \<open>semanticTopK = 20\<close> are primed, the
  configuration has fields of the same names.
\<close>

definition fuseMap :: "SearchResult list \<Rightarrow> SearchResult list \<Rightarrow> resultsMap" where
  "fuseMap keywordResults semanticResults =
     foldl addSemantic (foldl addKeyword [] keywordResults) semanticResults"

definition fuse :: "SearchResult list \<Rightarrow> SearchResult list \<Rightarrow> SearchResult list" where
  "fuse keywordResults semanticResults =
     sortByScoreDesc (map snd (fuseMap keywordResults semanticResults))"

definition hybridSearch ::
  "VectorIndex \<Rightarrow> string \<Rightarrow> real list \<Rightarrow> nat option \<Rightarrow> nat option \<Rightarrow> error + SearchResult list" where
  "hybridSearch idx query queryEmbedding keywordTopK' semanticTopK' =
     (let keywordResults =
            metaKeywordSearch idx query (Some (case keywordTopK' of None \<Rightarrow> 10 | Some k \<Rightarrow> k))
      in case semanticSearch idx queryEmbedding
                (Some (case semanticTopK' of None \<Rightarrow> 20 | Some k \<Rightarrow> k)) None of
           Inl e \<Rightarrow> Inl e
         | Inr semanticResults \<Rightarrow> Inr (fuse keywordResults semanticResults))"

text \<open>
  \<open>retrieveRelevantChunks\<close>; \<open>embedding\<close> is the outcome of the external
  \<open>generateEmbedding(query)\<close>, \<open>None\<close> when it throws.
\<close>

definition retrieveRelevantChunks ::
  "RAGConfig \<Rightarrow> VectorIndex \<Rightarrow> string \<Rightarrow> real list option \<Rightarrow> error + SearchResult list" where
  "retrieveRelevantChunks cfg idx query embedding =
     (case embedding of
        None \<Rightarrow> Inl EmbeddingFailed
      | Some queryEmbedding \<Rightarrow>
          (case hybridSearch idx query queryEmbedding
                  (Some (keywordTopK (retrieval cfg))) (Some (semanticTopK (retrieval cfg))) of
             Inl e \<Rightarrow> Inl e
           | Inr results \<Rightarrow>
               Inr (filter (\<lambda>r. score r \<ge> minSimilarityScore (retrieval cfg)) results)))"

text \<open>
  What the specification describes instead: the vector search issued with the floor 0.
  This definition follows the specification's words, for comparison with
  \<open>hybridSearch\<close>.
\<close>

definition hybridSearchSpec ::
  "VectorIndex \<Rightarrow> string \<Rightarrow> real list \<Rightarrow> nat \<Rightarrow> nat \<Rightarrow> error + SearchResult list" where
  "hybridSearchSpec idx query queryEmbedding lexicalTopK vectorTopK =
     (case semanticSearch idx queryEmbedding (Some vectorTopK) (Some 0) of
        Inl e \<Rightarrow> Inl e
      | Inr vectorResults \<Rightarrow>
          Inr (fuse (metaKeywordSearch idx query (Some lexicalTopK)) vectorResults))"

text \<open>
  The order the specification describes for the fused list: descending by score, equal
  scores ascending by id (strings compared lexicographically by character code). A
  definition from the specification's words, for comparison with \<open>fuse\<close>.
\<close>

definition scoreDescIdAscSpec :: "SearchResult list \<Rightarrow> bool" where
  "scoreDescIdAscSpec xs =
     sorted_wrt (\<lambda>x y. score y < score x \<or> (score y = score x \<and> id' x < id' y)) xs"

section \<open>Relevance scoring (openai.ts, rerankChunks)\<close>

text \<open>
  The chat-completion call is external. Its outcome is an input of the model: either
  something inside the \<open>try\<close> block threw (the request, or parsing the reply), or the
  reply parsed to an array, each element of which is a number (\<open>Some v\<close>) or a value
  for which \<open>isNaN\<close> holds (\<open>None\<close>). Token accounting is left out.
\<close>

datatype ScorerOutcome = ScorerFailed | ScorerReplied "real option list"

definition rerankChunks :: "ScorerOutcome \<Rightarrow> string list \<Rightarrow> real list" where
  "rerankChunks outcome chunks =
     (case outcome of
        ScorerReplied scores \<Rightarrow> map (\<lambda>s. case s of None \<Rightarrow> 0 | Some v \<Rightarrow> v / 10) scores
      | ScorerFailed \<Rightarrow> map (\<lambda>_. 0.5) chunks)"

section \<open>Reranker (rag/reranker.ts)\<close>

text \<open>
  \<open>rerankScores[index]\<close>: the score at \<open>index\<close>, \<open>undefined\<close> past the end of the
  array. Nothing in \<open>rerankWithOpenAI\<close> compares the two lengths.
\<close>

definition scoreAt :: "real list \<Rightarrow> nat \<Rightarrow> real option" where
  "scoreAt rerankScores index =
     (if index < length rerankScores then Some (rerankScores ! index) else None)"

definition finalTopK :: "RAGConfig \<Rightarrow> nat option \<Rightarrow> nat" where
  "finalTopK cfg topK = (case topK of None \<Rightarrow> rerankTopK (retrieval cfg) | Some k \<Rightarrow> k)"

definition toRerankResult :: "SearchResult \<Rightarrow> real option \<Rightarrow> nat \<Rightarrow> RerankResult" where
  "toRerankResult result s index =
     \<lparr> RerankResult.id' = id' result, RerankResult.text' = text' result,
       RerankResult.score = s, originalIndex = index,
       RerankResult.metadata = metadata result \<rparr>"

definition rerankWithOpenAI ::
  "RAGConfig \<Rightarrow> ScorerOutcome \<Rightarrow> SearchResult list \<Rightarrow> nat option \<Rightarrow> RerankResult list" where
  "rerankWithOpenAI cfg outcome results topK =
     (if length results = 0 then []
      else
        let texts = map text' results;
            rerankScores = rerankChunks outcome texts;
            reranked = mapIndexed (\<lambda>result index.
                          toRerankResult result (scoreAt rerankScores index) index) results;
            topResults = take (finalTopK cfg topK) (sortReranked reranked)
        in topResults)"

text \<open>
  \<open>rerankByScore\<close> calls \<open>results.sort\<close>, which sorts the caller's array in place and
  returns it. The arrays live in a store indexed by reference; the function takes the
  reference of its argument and returns the store after the call with the new array.
\<close>

type_synonym ref = nat
type_synonym store = "ref \<Rightarrow> SearchResult list"

definition rerankByScore :: "RAGConfig \<Rightarrow> store \<Rightarrow> ref \<Rightarrow> nat option \<Rightarrow> store \<times> RerankResult list" where
  "rerankByScore cfg h results topK =
     (let h' = h(results := sortByScoreDesc (h results));
          sliced = take (finalTopK cfg topK) (h' results)
      in (h', mapIndexed (\<lambda>result index. toRerankResult result (Some (score result)) index)
                sliced))"

text \<open>
  The \<open>for ... of\<close> loop of \<open>rerankWithDiversity\<close>, with its two variables
  \<open>diverse\<close> and \<open>selectedTickets\<close>; \<open>k\<close> is \<open>topK ?? config.retrieval.rerankTopK\<close>.
  The \<open>break\<close> test comes after the push.
\<close>

fun diversityLoop ::
  "nat \<Rightarrow> RerankResult list \<Rightarrow> RerankResult list \<Rightarrow> string set \<Rightarrow> RerankResult list" where
  "diversityLoop k [] diverse selectedTickets = diverse"
| "diversityLoop k (result # rest) diverse selectedTickets =
     (let (diverse', selectedTickets') =
        (if ticketUid (RerankResult.metadata result) \<in> selectedTickets
         then (if real (length diverse) < real k / 2 then diverse @ [result] else diverse,
               selectedTickets)
         else (diverse @ [result],
               insert (ticketUid (RerankResult.metadata result)) selectedTickets))
      in if length diverse' \<ge> k then diverse'
         else diversityLoop k rest diverse' selectedTickets')"

definition rerankWithDiversity ::
  "RAGConfig \<Rightarrow> ScorerOutcome \<Rightarrow> SearchResult list \<Rightarrow> nat option \<Rightarrow> RerankResult list" where
  "rerankWithDiversity cfg outcome results topK =
     (if length results = 0 then []
      else let reranked = rerankWithOpenAI cfg outcome results (Some (length results))
           in diversityLoop (finalTopK cfg topK) reranked [] {})"



text \<open>The number of results of a list that come from ticket \<open>t\<close>.\<close>

abbreviation fromTicket :: "string \<Rightarrow> RerankResult list \<Rightarrow> nat" where
  "fromTicket t xs \<equiv> length (filter (\<lambda>r. ticketUid (RerankResult.metadata r) = t) xs)"

section \<open>Example inputs\<close>

definition exampleMetadata :: "string \<Rightarrow> ChunkMetadata" where
  "exampleMetadata t =
     \<lparr> ticketUid = t, ticketMask = ''MASK'', ticketSubject = ''subject'',
       messageUid = None, isOutgoing = None, chunkIndex = 0, totalChunks = 1,
       timestamp = None, groupId = None, bucketId = None \<rparr>"

definition exampleResult :: "string \<Rightarrow> real \<Rightarrow> string \<Rightarrow> SearchResult" where
  "exampleResult i s t = \<lparr> id' = i, text' = ''some text'', score = s, metadata = exampleMetadata t \<rparr>"

text \<open>
  An index whose one passage has lexical score 0.5 and similarity 0.3, and an index
  that answers the vector query with two passages of equal similarity, \<open>b\<close> first.
\<close>

definition lowScoreIndex :: VectorIndex where
  "lowScoreIndex =
     \<lparr> keywordHits = (\<lambda>query topK. [exampleResult ''p1'' 0.5 ''T1'']),
       queryItems = (\<lambda>queryEmbedding topK. Some [exampleResult ''p1'' 0.3 ''T1'']) \<rparr>"

definition tieIndex :: VectorIndex where
  "tieIndex =
     \<lparr> keywordHits = (\<lambda>query topK. []),
       queryItems = (\<lambda>queryEmbedding topK.
          Some [exampleResult ''b'' 0.7 ''T1'', exampleResult ''a'' 0.7 ''T2'']) \<rparr>"

section \<open>Invariants used in the proofs\<close>

text \<open>
  The fusion map has distinct keys, and every value is stored under its own id.
\<close>

definition wfMap :: "resultsMap \<Rightarrow> bool" where
  "wfMap m \<longleftrightarrow> distinct (map fst m) \<and> (\<forall>(k, v)\<in>set m. id' v = k)"

text \<open>A word as \<open>wordsOf\<close> yields them: not empty, no whitespace in it.\<close>

definition properWord :: "string \<Rightarrow> bool" where
  "properWord w \<longleftrightarrow> w \<noteq> [] \<and> (\<forall>c\<in>set w. \<not> isSpace c)"

section \<open>Lemmas on sorting and indexing\<close>

lemma length_mapIndexed: "length (mapIndexed f xs) = length xs"
  by (simp add: mapIndexed_def)

lemma nth_mapIndexed: "i < length xs \<Longrightarrow> mapIndexed f xs ! i = f (xs ! i) i"
  by (simp add: mapIndexed_def)

lemma sortByScoreDesc_sorted:
  "sorted_wrt (\<lambda>x y. score y \<le> score x) (sortByScoreDesc xs)"
proof -
  have "sorted (map (\<lambda>r. - score r) (sortByScoreDesc xs))"
    unfolding sortByScoreDesc_def by (rule sorted_sort_key)
  then show ?thesis by (simp add: sorted_map)
qed

lemma sortByScoreDesc_mset: "mset (sortByScoreDesc xs) = mset xs"
  by (simp add: sortByScoreDesc_def)

lemma sortByScoreDesc_length: "length (sortByScoreDesc xs) = length xs"
  by (simp add: sortByScoreDesc_def)

lemma sortByScoreDesc_set: "set (sortByScoreDesc xs) = set xs"
  by (simp add: sortByScoreDesc_def)

lemma sortByScoreDesc_stable:
  "filter (\<lambda>r. score r = s) (sortByScoreDesc xs) = filter (\<lambda>r. score r = s) xs"
proof -
  have "filter (\<lambda>r. - score r = - s) (sort_key (\<lambda>r. - score r) xs) = filter (\<lambda>r. - score r = - s) xs"
    by (rule sort_key_stable)
  then show ?thesis by (simp add: sortByScoreDesc_def)
qed

lemma sortByScoreDesc_id:
  "sorted_wrt (\<lambda>x y. score y \<le> score x) xs \<Longrightarrow> sortByScoreDesc xs = xs"
  unfolding sortByScoreDesc_def by (rule sort_key_id_if_sorted) (simp add: sorted_map)



section \<open>Lemmas on splitting and joining words\<close>

declare splitWs.simps [simp del]
declare chunkLoop.simps [simp del]

lemma splitWs_last:
  assumes "dropWhile (\<lambda>c. \<not> isSpace c) s = []"
  shows "splitWs s = [takeWhile (\<lambda>c. \<not> isSpace c) s]"
proof -
  have "splitWs s =
     (let w = takeWhile (\<lambda>c. \<not> isSpace c) s;
          rest = dropWhile (\<lambda>c. \<not> isSpace c) s
      in if rest = [] then [w] else w # splitWs (dropWhile isSpace rest))"
    by (rule splitWs.simps)
  then show ?thesis using assms by (simp only: Let_def simp_thms if_True)
qed

lemma splitWs_more:
  assumes "dropWhile (\<lambda>c. \<not> isSpace c) s \<noteq> []"
  shows "splitWs s = takeWhile (\<lambda>c. \<not> isSpace c) s
                 # splitWs (dropWhile isSpace (dropWhile (\<lambda>c. \<not> isSpace c) s))"
proof -
  have "splitWs s =
     (let w = takeWhile (\<lambda>c. \<not> isSpace c) s;
          rest = dropWhile (\<lambda>c. \<not> isSpace c) s
      in if rest = [] then [w] else w # splitWs (dropWhile isSpace rest))"
    by (rule splitWs.simps)
  then show ?thesis using assms by (simp only: Let_def if_False)
qed

lemma splitWs_no_space: "w \<in> set (splitWs s) \<Longrightarrow> c \<in> set w \<Longrightarrow> \<not> isSpace c"
proof (induction s arbitrary: w rule: splitWs.induct)
  case (1 s)
  let ?rest = "dropWhile (\<lambda>c. \<not> isSpace c) s"
  show ?case
  proof (cases "?rest = []")
    case True
    with "1.prems" have "w = takeWhile (\<lambda>c. \<not> isSpace c) s"
      by (simp only: splitWs_last[OF True] list.set singleton_iff)
    with "1.prems"(2) show ?thesis by (auto dest: set_takeWhileD)
  next
    case False
    with "1.prems"(1) have "w = takeWhile (\<lambda>c. \<not> isSpace c) s \<or> w \<in> set (splitWs (dropWhile isSpace ?rest))"
      by (simp only: splitWs_more[OF False] set_ConsD list.set insert_iff)
    then show ?thesis
    proof
      assume "w = takeWhile (\<lambda>c. \<not> isSpace c) s"
      with "1.prems"(2) show ?thesis by (auto dest: set_takeWhileD)
    next
      assume "w \<in> set (splitWs (dropWhile isSpace ?rest))"
      then show ?thesis using "1.IH"[OF refl refl False] "1.prems"(2) by blast
    qed
  qed
qed

lemma wordsOf_proper: "w \<in> set (wordsOf text) \<Longrightarrow> properWord w"
  unfolding wordsOf_def properWord_def using splitWs_no_space by auto

lemma splitWs_word:
  assumes "\<forall>c\<in>set w. \<not> isSpace c"
  shows "splitWs w = [w]"
proof -
  have "takeWhile (\<lambda>c. \<not> isSpace c) w = w" "dropWhile (\<lambda>c. \<not> isSpace c) w = []"
    using assms by simp_all
  then show ?thesis by (simp only: splitWs_last)
qed

lemma splitWs_word_sep:
  assumes "\<forall>c\<in>set w. \<not> isSpace c" and "t = [] \<or> \<not> isSpace (hd t)"
  shows "splitWs (w @ CHR '' '' # t) = w # splitWs t"
proof -
  have sp: "isSpace (CHR '' '')" by (simp add: isSpace_def)
  have tw: "takeWhile (\<lambda>c. \<not> isSpace c) (w @ CHR '' '' # t) = w"
    using assms(1) sp by simp
  have dw: "dropWhile (\<lambda>c. \<not> isSpace c) (w @ CHR '' '' # t) = CHR '' '' # t"
    using assms(1) sp by simp
  have "dropWhile isSpace t = t" using assms(2) by (cases t) auto
  then have d2: "dropWhile isSpace (CHR '' '' # t) = t" using sp by simp
  have ne: "dropWhile (\<lambda>c. \<not> isSpace c) (w @ CHR '' '' # t) \<noteq> []" by (simp add: dw)
  have "splitWs (w @ CHR '' '' # t)
          = takeWhile (\<lambda>c. \<not> isSpace c) (w @ CHR '' '' # t)
            # splitWs (dropWhile isSpace (dropWhile (\<lambda>c. \<not> isSpace c) (w @ CHR '' '' # t)))"
    by (rule splitWs_more[OF ne])
  then show ?thesis by (simp only: tw dw d2)
qed

lemma joinSpace_hd:
  "properWord v \<Longrightarrow> joinSpace (v # vs) \<noteq> [] \<and> \<not> isSpace (hd (joinSpace (v # vs)))"
  by (cases vs) (auto simp: properWord_def)

lemma wordsOf_joinSpace:
  "\<forall>w\<in>set ws. properWord w \<Longrightarrow> wordsOf (joinSpace ws) = ws"
proof (induction ws rule: joinSpace.induct)
  case 1
  show ?case by (simp add: wordsOf_def splitWs_last)
next
  case (2 w)
  then show ?case by (simp add: wordsOf_def splitWs_word properWord_def)
next
  case (3 w v vs)
  then have w: "properWord w" and v: "properWord v" by simp_all
  have "splitWs (w @ CHR '' '' # joinSpace (v # vs)) = w # splitWs (joinSpace (v # vs))"
    using splitWs_word_sep[of w "joinSpace (v # vs)"] joinSpace_hd[OF v, of vs] w
    by (simp add: properWord_def)
  moreover have "wordsOf (joinSpace (v # vs)) = v # vs" using 3 by simp
  ultimately show ?case using w by (simp add: wordsOf_def properWord_def)
qed

lemma length_joinSpace:
  "\<forall>w\<in>set ws. w \<noteq> [] \<Longrightarrow> length ws \<le> length (joinSpace ws)"
proof (induction ws rule: joinSpace.induct)
  case (2 w)
  then show ?case by (cases w) simp_all
next
  case (3 w v vs)
  then show ?case by simp
qed simp

section \<open>Lemmas on the chunking loop\<close>

lemma slice_window:
  "slice start (min (start + S) (length ws)) ws = take S (drop start ws)"
  by (simp add: slice_def min_def)

lemma chunkLoop_unfold:
  "chunkLoop m ws S ov start acc =
     (if start < length ws then
        (if length ws \<le> start + S
         then (if m \<le> length (joinSpace (take S (drop start ws)))
               then acc @ [joinSpace (take S (drop start ws))] else acc)
         else chunkLoop m ws S ov (start + max 1 (S - ov))
                (if m \<le> length (joinSpace (take S (drop start ws)))
                 then acc @ [joinSpace (take S (drop start ws))] else acc))
      else acc)"
proof -
  have "chunkLoop m ws S ov start acc =
     (if start < length ws then
        (let end' = min (start + S) (length ws);
             chunk = joinSpace (slice start end' ws);
             chunks' = (if length chunk \<ge> m then acc @ [chunk] else acc)
         in if end' = length ws then chunks'
            else chunkLoop m ws S ov (start + max 1 (S - ov)) chunks')
      else acc)"
    by (rule chunkLoop.simps)
  moreover have "(min (start + S) (length ws) = length ws) = (length ws \<le> start + S)"
    by auto
  ultimately show ?thesis by (simp only: Let_def slice_window)
qed

lemma chunkLoop_last:
  assumes "start < length ws" "length ws \<le> start + S"
  shows "chunkLoop m ws S ov start acc =
           (if m \<le> length (joinSpace (take S (drop start ws)))
            then acc @ [joinSpace (take S (drop start ws))] else acc)"
  using assms by (simp only: chunkLoop_unfold[of m ws S ov start acc] if_True)

lemma chunkLoop_more:
  assumes "start + S < length ws"
  shows "chunkLoop m ws S ov start acc =
           chunkLoop m ws S ov (start + max 1 (S - ov))
             (if m \<le> length (joinSpace (take S (drop start ws)))
              then acc @ [joinSpace (take S (drop start ws))] else acc)"
proof -
  from assms have "start < length ws" "\<not> length ws \<le> start + S" by simp_all
  then show ?thesis by (simp only: chunkLoop_unfold[of m ws S ov start acc] if_True if_False)
qed

lemma chunkLoop_done:
  assumes "length ws \<le> start"
  shows "chunkLoop m ws S ov start acc = acc"
proof -
  from assms have "\<not> start < length ws" by simp
  then show ?thesis by (simp only: chunkLoop_unfold[of m ws S ov start acc] if_False)
qed

lemma map_upt_shift: "map f [0 ..< Suc n] = f 0 # map (\<lambda>k. f (Suc k)) [0 ..< n]"
  by (induction n) simp_all

lemma chunkLoop_floor:
  "chunkLoop m ws S ov start acc
     = acc @ filter (\<lambda>c. m \<le> length c) (chunkLoop 0 ws S ov start [])"
proof (induction "length ws - start" arbitrary: m start acc rule: less_induct)
  case less
  let ?c = "joinSpace (take S (drop start ws))"
  let ?next = "start + max 1 (S - ov)"
  consider (past) "length ws \<le> start" | (final) "start < length ws" "length ws \<le> start + S"
    | (further) "start + S < length ws" by linarith
  then show ?case
  proof cases
    case past
    then show ?thesis by (simp add: chunkLoop_done)
  next
    case final
    then show ?thesis by (simp add: chunkLoop_last)
  next
    case further
    then have dec: "length ws - ?next < length ws - start" by simp
    have zero: "chunkLoop 0 ws S ov ?next [?c] = [?c] @ chunkLoop 0 ws S ov ?next []"
      using less[OF dec, of 0 "[?c]"] by simp
    have "chunkLoop m ws S ov start acc
            = chunkLoop m ws S ov ?next (if m \<le> length ?c then acc @ [?c] else acc)"
      by (rule chunkLoop_more[OF further])
    also have "\<dots> = (if m \<le> length ?c then acc @ [?c] else acc)
                     @ filter (\<lambda>c. m \<le> length c) (chunkLoop 0 ws S ov ?next [])"
      by (rule less[OF dec])
    also have "\<dots> = acc @ filter (\<lambda>c. m \<le> length c) (?c # chunkLoop 0 ws S ov ?next [])"
      by simp
    also have "?c # chunkLoop 0 ws S ov ?next [] = chunkLoop 0 ws S ov start []"
      using chunkLoop_more[OF further, of 0 ov "[]"] zero by simp
    finally show ?thesis .
  qed
qed

lemma chunkLoop_windows:
  assumes "0 < S" "start < length ws"
  shows "\<exists>n. chunkLoop 0 ws S ov start []
               = map (\<lambda>k. joinSpace (take S (drop (start + k * max 1 (S - ov)) ws))) [0 ..< Suc n]
             \<and> length ws \<le> start + n * max 1 (S - ov) + S
             \<and> (\<forall>k<n. start + k * max 1 (S - ov) + S < length ws)"
  using assms(2)
proof (induction "length ws - start" arbitrary: start rule: less_induct)
  case less
  let ?step = "max 1 (S - ov)"
  let ?w = "\<lambda>s k. joinSpace (take S (drop (s + k * ?step) ws))"
  show ?case
  proof (cases "length ws \<le> start + S")
    case True
    have "chunkLoop 0 ws S ov start [] = map (?w start) [0 ..< Suc 0]"
      using chunkLoop_last[OF less.prems True, of 0 ov "[]"] by simp
    with True show ?thesis by (intro exI[of _ 0]) simp
  next
    case False
    then have more: "start + S < length ws" by simp
    have le: "?step \<le> S" using assms(1) by simp
    then have next_lt: "start + ?step < length ws" using more by linarith
    have dec: "length ws - (start + ?step) < length ws - start" using less.prems by simp
    obtain n where n: "chunkLoop 0 ws S ov (start + ?step) [] = map (?w (start + ?step)) [0 ..< Suc n]"
      "length ws \<le> start + ?step + n * ?step + S"
      "\<forall>k<n. start + ?step + k * ?step + S < length ws"
      using less.hyps[OF dec next_lt] by blast
    have shift: "?w (start + ?step) k = ?w start (Suc k)" for k
      by (simp add: add.assoc)
    have "chunkLoop 0 ws S ov start [] = ?w start 0 # chunkLoop 0 ws S ov (start + ?step) []"
      using chunkLoop_more[OF more, of 0 ov "[]"] chunkLoop_floor[of 0 ws S ov "start + ?step" "[?w start 0]"]
      by simp
    also have "\<dots> = ?w start 0 # map (\<lambda>k. ?w start (Suc k)) [0 ..< Suc n]"
      by (simp only: n(1) shift)
    also have "\<dots> = map (?w start) [0 ..< Suc (Suc n)]"
      by (rule map_upt_shift[symmetric])
    finally have eq: "chunkLoop 0 ws S ov start [] = map (?w start) [0 ..< Suc (Suc n)]" .
    have bound: "length ws \<le> start + Suc n * ?step + S" using n(2) by (simp add: algebra_simps)
    have full: "\<forall>k<Suc n. start + k * ?step + S < length ws"
    proof (intro allI impI)
      fix k assume "k < Suc n"
      show "start + k * ?step + S < length ws"
      proof (cases k)
        case 0
        with more show ?thesis by simp
      next
        case (Suc j)
        with \<open>k < Suc n\<close> n(3) have "start + ?step + j * ?step + S < length ws" by simp
        with Suc show ?thesis by (simp add: algebra_simps)
      qed
    qed
    from eq bound full show ?thesis by blast
  qed
qed

lemma wordsOf_repeated: "wordsOf (concat (replicate n ''w '')) = replicate n ''w''"
proof (induction n)
  case 0
  show ?case by (simp add: wordsOf_def splitWs_last)
next
  case (Suc n)
  let ?t = "concat (replicate n ''w '')"
  have hd: "?t = [] \<or> \<not> isSpace (hd ?t)"
    by (cases n) (simp_all add: isSpace_def)
  have "concat (replicate (Suc n) ''w '') = ''w'' @ CHR '' '' # ?t" by simp
  moreover have "splitWs (''w'' @ CHR '' '' # ?t) = ''w'' # splitWs ?t"
    by (rule splitWs_word_sep[OF _ hd]) (simp add: isSpace_def)
  ultimately show ?case using Suc by (simp add: wordsOf_def)
qed

lemma window_clears:
  assumes "\<forall>w\<in>set ws. properWord w" and "m \<le> length (take S (drop start ws))"
  shows "m \<le> length (joinSpace (take S (drop start ws)))"
proof -
  have "set (take S (drop start ws)) \<subseteq> set ws"
    using set_take_subset[of S "drop start ws"] set_drop_subset[of start ws] by (rule subset_trans)
  with assms(1) have "\<forall>w\<in>set (take S (drop start ws)). w \<noteq> []"
    unfolding properWord_def by blast
  from length_joinSpace[OF this] assms(2) show ?thesis by linarith
qed

lemma chunkLoop_thousand:
  assumes "length ws = 1000" and "\<forall>w\<in>set ws. properWord w"
  shows "chunkLoop 50 ws 500 128 0 []
           = [joinSpace (slice 0 500 ws), joinSpace (slice 372 872 ws), joinSpace (slice 744 1000 ws)]"
proof -
  have c0: "50 \<le> length (joinSpace (take 500 (drop 0 ws)))"
    by (rule window_clears[OF assms(2)]) (simp add: assms(1))
  have c1: "50 \<le> length (joinSpace (take 500 (drop 372 ws)))"
    by (rule window_clears[OF assms(2)]) (simp add: assms(1))
  have c2: "50 \<le> length (joinSpace (take 500 (drop 744 ws)))"
    by (rule window_clears[OF assms(2)]) (simp add: assms(1))
  have "chunkLoop 50 ws 500 128 0 [] = chunkLoop 50 ws 500 128 372 [joinSpace (take 500 (drop 0 ws))]"
    using chunkLoop_more[of 0 500 ws 50 128 "[]"] c0 assms(1) by simp
  also have "\<dots> = chunkLoop 50 ws 500 128 744
                      [joinSpace (take 500 (drop 0 ws)), joinSpace (take 500 (drop 372 ws))]"
    using chunkLoop_more[of 372 500 ws 50 128 "[joinSpace (take 500 (drop 0 ws))]"] c1 assms(1)
    by simp
  also have "\<dots> = [joinSpace (take 500 (drop 0 ws)), joinSpace (take 500 (drop 372 ws)),
                    joinSpace (take 500 (drop 744 ws))]"
    using chunkLoop_last[of 744 ws 500 50 128
            "[joinSpace (take 500 (drop 0 ws)), joinSpace (take 500 (drop 372 ws))]"] c2 assms(1)
    by simp
  finally show ?thesis by (simp add: slice_def assms(1))
qed

lemma chunkText_Some:
  "chunkText cfg text (Some S) (Some ov) =
     (if wordsOf text = [] then []
      else chunkLoop (minChunkSize (chunking cfg)) (wordsOf text) S ov 0 [])"
  by (simp add: chunkText_def Let_def)

lemma chunkText_thousand:
  assumes "length (wordsOf text) = 1000" and "minChunkSize (chunking cfg) = 50"
  shows "chunkText cfg text (Some 500) (Some 128)
           = [joinSpace (slice 0 500 (wordsOf text)), joinSpace (slice 372 872 (wordsOf text)),
              joinSpace (slice 744 1000 (wordsOf text))]"
proof -
  have "\<forall>w\<in>set (wordsOf text). properWord w" using wordsOf_proper by blast
  from chunkLoop_thousand[OF assms(1) this] have
    "chunkLoop 50 (wordsOf text) 500 128 0 []
       = [joinSpace (slice 0 500 (wordsOf text)), joinSpace (slice 372 872 (wordsOf text)),
          joinSpace (slice 744 1000 (wordsOf text))]" .
  moreover have "wordsOf text \<noteq> []" using assms(1) by auto
  ultimately show ?thesis by (simp only: chunkText_Some assms(2) if_False)
qed

section \<open>Chunker\<close>

text \<open>
  Claim C6, as amended. \<open>chunkText\<close> applied to a text of 1000 words with
  \<open>chunkSize = 500\<close>, \<open>overlap = 128\<close> and \<open>minChunkSize = 50\<close> produces exactly
  3 chunks: the words at positions [0, 500), [372, 872) and [744, 1000), of 500, 500
  and 256 words.
\<close>

theorem chunkText_thousand_words:
  assumes "length (wordsOf text) = 1000" and "minChunkSize (chunking cfg) = 50"
  shows "chunkText cfg text (Some 500) (Some 128)
           = [joinSpace (slice 0 500 (wordsOf text)), joinSpace (slice 372 872 (wordsOf text)),
              joinSpace (slice 744 1000 (wordsOf text))]
       \<and> length (slice 0 500 (wordsOf text)) = 500
       \<and> length (slice 372 872 (wordsOf text)) = 500
       \<and> length (slice 744 1000 (wordsOf text)) = 256"
  using chunkText_thousand[OF assms] assms(1) by (simp add: slice_def)

theorem chunkText_thousand_words_witness:
  "length (wordsOf (concat (replicate 1000 ''w ''))) = 1000
   \<and> minChunkSize (chunking defaultConfig) = 50
   \<and> length (chunkText defaultConfig (concat (replicate 1000 ''w '')) (Some 500) (Some 128)) = 3"
proof -
  have n: "length (wordsOf (concat (replicate 1000 ''w ''))) = 1000"
    by (simp only: wordsOf_repeated length_replicate)
  have m: "minChunkSize (chunking defaultConfig) = 50" by (simp add: defaultConfig_def)
  show ?thesis using n m chunkText_thousand_words[OF n m] by simp
qed

text \<open>
  Claim C6 as stated fails: on a text of 1000 words the chunker returns three chunks
  (500, 500 and 256 words), not two.
\<close>

theorem chunkText_thousand_words_three_chunks:
  "length (wordsOf (concat (replicate 1000 ''w ''))) = 1000
   \<and> chunkText defaultConfig (concat (replicate 1000 ''w '')) (Some 500) (Some 128)
       = [joinSpace (replicate 500 ''w''), joinSpace (replicate 500 ''w''),
          joinSpace (replicate 256 ''w'')]
   \<and> length (chunkText defaultConfig (concat (replicate 1000 ''w '')) (Some 500) (Some 128)) \<noteq> 2"
proof -
  have n: "length (wordsOf (concat (replicate 1000 ''w ''))) = 1000"
    by (simp only: wordsOf_repeated length_replicate)
  have m: "minChunkSize (chunking defaultConfig) = 50" by (simp add: defaultConfig_def)
  have "chunkText defaultConfig (concat (replicate 1000 ''w '')) (Some 500) (Some 128)
       = [joinSpace (replicate 500 ''w''), joinSpace (replicate 500 ''w''),
          joinSpace (replicate 256 ''w'')]"
    using chunkText_thousand[OF n m] by (simp only: wordsOf_repeated slice_def) simp
  with n show ?thesis by simp
qed

lemma chunkText_windows:
  assumes "0 < S" "wordsOf text \<noteq> []"
  shows "\<exists>n. chunkText (noFloor cfg) text (Some S) (Some ov)
               = map (\<lambda>k. joinSpace (take S (drop (k * max 1 (S - ov)) (wordsOf text)))) [0 ..< Suc n]
           \<and> chunkText cfg text (Some S) (Some ov)
               = filter (\<lambda>c. minChunkSize (chunking cfg) \<le> length c)
                   (map (\<lambda>k. joinSpace (take S (drop (k * max 1 (S - ov)) (wordsOf text)))) [0 ..< Suc n])
           \<and> length (wordsOf text) \<le> n * max 1 (S - ov) + S
           \<and> (\<forall>k<n. k * max 1 (S - ov) + S < length (wordsOf text))"
proof -
  from assms(2) have pos: "0 < length (wordsOf text)" by simp
  obtain n where n: "chunkLoop 0 (wordsOf text) S ov 0 []
               = map (\<lambda>k. joinSpace (take S (drop (0 + k * max 1 (S - ov)) (wordsOf text)))) [0 ..< Suc n]"
      "length (wordsOf text) \<le> 0 + n * max 1 (S - ov) + S"
      "\<forall>k<n. 0 + k * max 1 (S - ov) + S < length (wordsOf text)"
    using chunkLoop_windows[OF assms(1) pos, of ov] by blast
  have zero: "minChunkSize (chunking (noFloor cfg)) = 0" by (simp add: noFloor_def)
  have a: "chunkText (noFloor cfg) text (Some S) (Some ov) = chunkLoop 0 (wordsOf text) S ov 0 []"
    using assms(2) by (simp only: chunkText_Some zero if_False)
  have b: "chunkText cfg text (Some S) (Some ov)
             = filter (\<lambda>c. minChunkSize (chunking cfg) \<le> length c) (chunkLoop 0 (wordsOf text) S ov 0 [])"
    using assms(2) chunkLoop_floor[of "minChunkSize (chunking cfg)" "wordsOf text" S ov 0 "[]"]
    by (simp only: chunkText_Some if_False append_Nil)
  from a b n show ?thesis by (intro exI[of _ n]) (simp only: add_0)
qed

lemma concat_blocks:
  "concat (map (\<lambda>j. take b (drop (a + j * b) xs)) [0 ..< n]) = take (n * b) (drop a xs)"
proof (induction n)
  case 0
  show ?case by simp
next
  case (Suc n)
  have "Suc n * b = n * b + b" by simp
  then have "take (Suc n * b) (drop a xs)
               = take (n * b) (drop a xs) @ take b (drop (n * b) (drop a xs))"
    by (simp only: take_add)
  also have "drop (n * b) (drop a xs) = drop (a + n * b) xs" by (simp add: add.commute)
  finally have r: "take (Suc n * b) (drop a xs)
               = take (n * b) (drop a xs) @ take b (drop (a + n * b) xs)" .
  have "concat (map (\<lambda>j. take b (drop (a + j * b) xs)) [0 ..< Suc n])
          = concat (map (\<lambda>j. take b (drop (a + j * b) xs)) [0 ..< n]) @ take b (drop (a + n * b) xs)"
    by simp
  then show ?case by (simp only: Suc.IH r)
qed

lemma wordsOf_window:
  "wordsOf (joinSpace (take S (drop start (wordsOf text)))) = take S (drop start (wordsOf text))"
proof (rule wordsOf_joinSpace)
  have "set (take S (drop start (wordsOf text))) \<subseteq> set (wordsOf text)"
    using set_take_subset[of S "drop start (wordsOf text)"] set_drop_subset[of start "wordsOf text"]
    by (rule subset_trans)
  then show "\<forall>w\<in>set (take S (drop start (wordsOf text))). properWord w"
    using wordsOf_proper by blast
qed

lemma chunkText_reconstruct:
  assumes "ov < S"
    and "\<forall>c\<in>set (chunkText (noFloor cfg) text (Some S) (Some ov)). minChunkSize (chunking cfg) \<le> length c"
  shows "stitch ov (map wordsOf (chunkText cfg text (Some S) (Some ov))) = wordsOf text"
    and "\<forall>i<length (wordsOf text). \<exists>k<length (chunkText cfg text (Some S) (Some ov)).
           k * (S - ov) \<le> i
         \<and> i - k * (S - ov) < length (wordsOf (chunkText cfg text (Some S) (Some ov) ! k))
         \<and> wordsOf (chunkText cfg text (Some S) (Some ov) ! k) ! (i - k * (S - ov)) = wordsOf text ! i"
proof -
  let ?ws = "wordsOf text"
  let ?step = "S - ov"
  let ?out = "chunkText cfg text (Some S) (Some ov)"
  have step: "max 1 (S - ov) = ?step" "0 < ?step" "?step + ov = S" "0 < S" using assms(1) by simp_all
  show "stitch ov (map wordsOf ?out) = ?ws"
  proof (cases "?ws = []")
    case True
    then show ?thesis by (simp add: chunkText_Some)
  next
    case False
    obtain n where n: "chunkText (noFloor cfg) text (Some S) (Some ov)
               = map (\<lambda>k. joinSpace (take S (drop (k * ?step) ?ws))) [0 ..< Suc n]"
        "?out = filter (\<lambda>c. minChunkSize (chunking cfg) \<le> length c)
                   (map (\<lambda>k. joinSpace (take S (drop (k * ?step) ?ws))) [0 ..< Suc n])"
        "length ?ws \<le> n * ?step + S"
      using chunkText_windows[OF step(4) False, of cfg ov] unfolding step(1) by blast
    have out: "?out = map (\<lambda>k. joinSpace (take S (drop (k * ?step) ?ws))) [0 ..< Suc n]"
      using assms(2) unfolding n(2) unfolding n(1) by (intro filter_True) blast
    have words: "map wordsOf ?out = map (\<lambda>k. take S (drop (k * ?step) ?ws)) [0 ..< Suc n]"
      unfolding out by (simp add: wordsOf_window del: upt_Suc)
    have blk: "drop ov (take S (drop (Suc j * ?step) ?ws)) = take ?step (drop (S + j * ?step) ?ws)" for j
    proof -
      have "drop ov (take S (drop (Suc j * ?step) ?ws)) = take (S - ov) (drop (ov + Suc j * ?step) ?ws)"
        by (simp add: drop_take add.commute)
      moreover have "ov + Suc j * ?step = S + j * ?step" using step(3) by simp
      ultimately show ?thesis by simp
    qed
    have "stitch ov (map wordsOf ?out)
            = take S ?ws @ concat (map (\<lambda>j. drop ov (take S (drop (Suc j * ?step) ?ws))) [0 ..< n])"
      unfolding words map_upt_shift[of _ n] by (simp add: comp_def)
    also have "\<dots> = take S ?ws @ concat (map (\<lambda>j. take ?step (drop (S + j * ?step) ?ws)) [0 ..< n])"
      by (simp only: blk)
    also have "\<dots> = take S ?ws @ take (n * ?step) (drop S ?ws)"
      by (simp only: concat_blocks)
    also have "take (n * ?step) (drop S ?ws) = drop S ?ws"
      using n(3) by simp
    finally show ?thesis by simp
  qed
  show "\<forall>i<length ?ws. \<exists>k<length ?out.
           k * ?step \<le> i \<and> i - k * ?step < length (wordsOf (?out ! k))
         \<and> wordsOf (?out ! k) ! (i - k * ?step) = ?ws ! i"
  proof (intro allI impI)
    fix i assume i: "i < length ?ws"
    then have False: "?ws \<noteq> []" by auto
    obtain n where n: "chunkText (noFloor cfg) text (Some S) (Some ov)
               = map (\<lambda>k. joinSpace (take S (drop (k * ?step) ?ws))) [0 ..< Suc n]"
        "?out = filter (\<lambda>c. minChunkSize (chunking cfg) \<le> length c)
                   (map (\<lambda>k. joinSpace (take S (drop (k * ?step) ?ws))) [0 ..< Suc n])"
        "length ?ws \<le> n * ?step + S"
      using chunkText_windows[OF step(4) False, of cfg ov] unfolding step(1) by blast
    have out: "?out = map (\<lambda>k. joinSpace (take S (drop (k * ?step) ?ws))) [0 ..< Suc n]"
      using assms(2) unfolding n(2) unfolding n(1) by (intro filter_True) blast
    define k where "k = min (i div ?step) n"
    have kn: "k < length ?out" unfolding out k_def by simp
    have "k * ?step \<le> (i div ?step) * ?step" unfolding k_def by simp
    also have "\<dots> \<le> i" by simp
    finally have lo: "k * ?step \<le> i" .
    have hi: "i - k * ?step < S"
    proof (cases "i div ?step \<le> n")
      case True
      then have "k = i div ?step" by (simp add: k_def)
      then have "i - k * ?step = i mod ?step" by (simp add: minus_div_mult_eq_mod)
      also have "\<dots> < ?step" using step(2) by simp
      finally show ?thesis by simp
    next
      case False
      then have kn': "k = n" by (simp add: k_def)
      have "i - p < S" if "length ?ws \<le> p + S" for p
        using that i step(4) by arith
      from this[OF n(3)] show ?thesis unfolding kn' .
    qed
    have w: "wordsOf (?out ! k) = take S (drop (k * ?step) ?ws)"
      using kn unfolding out by (simp add: wordsOf_window del: upt_Suc)
    have len: "i - k * ?step < length (wordsOf (?out ! k))"
      unfolding w using hi i lo by simp
    have "wordsOf (?out ! k) ! (i - k * ?step) = ?ws ! i"
      unfolding w using hi lo i by simp
    with kn lo len show "\<exists>k<length ?out.
           k * ?step \<le> i \<and> i - k * ?step < length (wordsOf (?out ! k))
         \<and> wordsOf (?out ! k) ! (i - k * ?step) = ?ws ! i" by blast
  qed
qed

lemma properWord_letters:
  "properWord ''a''" "properWord ''b''" "properWord ''c''" "properWord ''hello''" "properWord ''world''"
  by (simp_all add: properWord_def isSpace_def)

lemma wordsOf_abc: "wordsOf ''a b c'' = [''a'', ''b'', ''c'']"
proof -
  have "''a b c'' = joinSpace [''a'', ''b'', ''c'']" by simp
  moreover have "wordsOf (joinSpace [''a'', ''b'', ''c'']) = [''a'', ''b'', ''c'']"
    by (rule wordsOf_joinSpace) (simp add: properWord_letters)
  ultimately show ?thesis by simp
qed

lemma wordsOf_hello_world: "wordsOf ''hello world'' = [''hello'', ''world'']"
proof -
  have "''hello world'' = joinSpace [''hello'', ''world'']" by simp
  moreover have "wordsOf (joinSpace [''hello'', ''world'']) = [''hello'', ''world'']"
    by (rule wordsOf_joinSpace) (simp add: properWord_letters)
  ultimately show ?thesis by simp
qed

lemma chunkText_abc:
  assumes "minChunkSize (chunking cfg) \<le> 3" and "1 \<le> ov"
  shows "chunkText cfg ''a b c'' (Some 2) (Some ov) = [''a b'', ''b c'']"
proof -
  let ?m = "minChunkSize (chunking cfg)"
  have step: "max (Suc 0) (2 - ov) = Suc 0" using assms(2) by simp
  have "chunkLoop ?m [''a'', ''b'', ''c''] 2 ov 0 [] = chunkLoop ?m [''a'', ''b'', ''c''] 2 ov (Suc 0) [''a b'']"
    using chunkLoop_more[of 0 2 "[''a'', ''b'', ''c'']" ?m ov "[]"] assms(1) by (simp add: step)
  also have "\<dots> = [''a b'', ''b c'']"
    using chunkLoop_last[of "Suc 0" "[''a'', ''b'', ''c'']" 2 ?m ov "[''a b'']"] assms(1) by simp
  finally show ?thesis by (simp add: chunkText_Some wordsOf_abc)
qed

lemma chunkText_hello_world:
  "chunkText defaultConfig ''hello world'' (Some 500) (Some 128) = []"
proof -
  have "chunkLoop 50 [''hello'', ''world''] 500 128 0 [] = []"
    using chunkLoop_last[of 0 "[''hello'', ''world'']" 500 50 128 "[]"] by simp
  then show ?thesis by (simp add: chunkText_Some wordsOf_hello_world defaultConfig_def)
qed

text \<open>
  Claim C7, as amended. For a text chunked with chunk size \<open>S\<close> and overlap
  \<open>O < S\<close>, provided no window falls below the \<open>minChunkSize\<close> floor (every chunk
  produced with the floor set to 0 has at least \<open>minChunkSize\<close> characters):
  concatenating the first chunk's words and every later chunk's words after its first
  \<open>O\<close> gives back the word sequence of the text, and every word position \<open>i\<close> lies
  in an emitted chunk \<open>k\<close>, which starts at position \<open>k (S - O)\<close> and holds the
  text's word \<open>i\<close> at offset \<open>i - k (S - O)\<close>.
\<close>

theorem chunkText_coverage:
  assumes "ov < S"
    and "\<forall>c\<in>set (chunkText (noFloor cfg) text (Some S) (Some ov)). minChunkSize (chunking cfg) \<le> length c"
  shows "stitch ov (map wordsOf (chunkText cfg text (Some S) (Some ov))) = wordsOf text
       \<and> (\<forall>i<length (wordsOf text). \<exists>k<length (chunkText cfg text (Some S) (Some ov)).
             k * (S - ov) \<le> i
           \<and> i - k * (S - ov) < length (wordsOf (chunkText cfg text (Some S) (Some ov) ! k))
           \<and> wordsOf (chunkText cfg text (Some S) (Some ov) ! k) ! (i - k * (S - ov)) = wordsOf text ! i)"
  using chunkText_reconstruct[OF assms] by (rule conjI)

theorem chunkText_coverage_witness:
  "(1::nat) < 2
   \<and> list_all (\<lambda>c. minChunkSize (chunking (defaultConfig\<lparr>chunking := \<lparr>chunkSize = 2, overlap = 1, minChunkSize = 3\<rparr>\<rparr>))
                      \<le> length c)
        (chunkText (noFloor (defaultConfig\<lparr>chunking := \<lparr>chunkSize = 2, overlap = 1, minChunkSize = 3\<rparr>\<rparr>))
                    ''a b c'' (Some 2) (Some 1))
   \<and> stitch 1 (map wordsOf (chunkText (defaultConfig\<lparr>chunking := \<lparr>chunkSize = 2, overlap = 1, minChunkSize = 3\<rparr>\<rparr>)
                                ''a b c'' (Some 2) (Some 1)))
       = [''a'', ''b'', ''c'']"
proof -
  let ?cfg = "defaultConfig\<lparr>chunking := \<lparr>chunkSize = 2, overlap = 1, minChunkSize = 3\<rparr>\<rparr>"
  have h1: "(1::nat) < 2" by simp
  have "chunkText (noFloor ?cfg) ''a b c'' (Some 2) (Some 1) = [''a b'', ''b c'']"
    by (rule chunkText_abc) (simp_all add: noFloor_def)
  then have h2: "\<forall>c\<in>set (chunkText (noFloor ?cfg) ''a b c'' (Some 2) (Some 1)).
                   minChunkSize (chunking ?cfg) \<le> length c"
    by simp
  show ?thesis
    using h1 h2 chunkText_coverage[OF h1 h2] by (simp only: wordsOf_abc list_all_iff)
qed

text \<open>
  Claim C7 as stated fails: with the default floor of 50 characters the two-word text
  \<open>hello world\<close> yields no chunk at all, so no word is covered.
\<close>

theorem chunkText_floor_drops_words:
  "chunkText defaultConfig ''hello world'' (Some 500) (Some 128) = []
   \<and> wordsOf ''hello world'' = [''hello'', ''world'']
   \<and> stitch 128 (map wordsOf (chunkText defaultConfig ''hello world'' (Some 500) (Some 128)))
       \<noteq> wordsOf ''hello world''"
  by (simp add: chunkText_hello_world wordsOf_hello_world)

lemma chunkText_step_one:
  assumes "max 1 (S - ov) = 1" and "0 < S"
  shows "chunkText cfg text (Some S) (Some ov)
           = filter (\<lambda>c. minChunkSize (chunking cfg) \<le> length c)
               (map (\<lambda>k. joinSpace (take S (drop k (wordsOf text))))
                    [0 ..< (if wordsOf text = [] then 0 else Suc (length (wordsOf text) - S))])"
proof (cases "wordsOf text = []")
  case True
  then show ?thesis by (simp add: chunkText_Some)
next
  case False
  obtain n where n: "chunkText cfg text (Some S) (Some ov)
               = filter (\<lambda>c. minChunkSize (chunking cfg) \<le> length c)
                   (map (\<lambda>k. joinSpace (take S (drop (k * max 1 (S - ov)) (wordsOf text)))) [0 ..< Suc n])"
      "length (wordsOf text) \<le> n * max 1 (S - ov) + S"
      "\<forall>k<n. k * max 1 (S - ov) + S < length (wordsOf text)"
    using chunkText_windows[OF assms(2) False, of cfg ov] by blast
  have "n = length (wordsOf text) - S"
  proof (rule ccontr)
    assume ne: "n \<noteq> length (wordsOf text) - S"
    show False
    proof (cases "n < length (wordsOf text) - S")
      case True
      with n(2) show False unfolding assms(1) by simp
    next
      case False
      with ne have "length (wordsOf text) - S < n" by simp
      with n(3) have "(length (wordsOf text) - S) * max 1 (S - ov) + S < length (wordsOf text)" by blast
      then show False unfolding assms(1) by simp
    qed
  qed
  with n(1) False show ?thesis by (simp only: assms(1) mult_1_right if_False)
qed

text \<open>
  Claim C8, as amended. A call with \<open>overlap \<ge> chunkSize\<close> (and \<open>chunkSize \<ge> 1\<close>)
  is not rejected: \<open>chunkText\<close> returns, as for \<open>overlap = chunkSize - 1\<close>, the
  windows of \<open>chunkSize\<close> words that start at each word position from 0 up to the
  first window that reaches the end of the text, less those below the
  \<open>minChunkSize\<close> floor. The step is the floor of 1 word.
\<close>

theorem chunkText_overlap_clamped:
  assumes "S \<le> ov" and "0 < S"
  shows "chunkText cfg text (Some S) (Some ov)
           = filter (\<lambda>c. minChunkSize (chunking cfg) \<le> length c)
               (map (\<lambda>k. joinSpace (take S (drop k (wordsOf text))))
                    [0 ..< (if wordsOf text = [] then 0 else Suc (length (wordsOf text) - S))])
       \<and> chunkText cfg text (Some S) (Some ov) = chunkText cfg text (Some S) (Some (S - 1))"
proof -
  have a: "max 1 (S - ov) = 1" using assms(1) by simp
  have b: "max 1 (S - (S - 1)) = 1" using assms(2) by simp
  show ?thesis
    using chunkText_step_one[OF a assms(2), of cfg "text"] chunkText_step_one[OF b assms(2), of cfg "text"]
    by simp
qed

theorem chunkText_overlap_clamped_witness:
  "(2::nat) \<le> 2 \<and> (0::nat) < 2
   \<and> chunkText (noFloor defaultConfig) ''a b c'' (Some 2) (Some 2)
       = chunkText (noFloor defaultConfig) ''a b c'' (Some 2) (Some (2 - 1))"
proof -
  have h1: "(2::nat) \<le> 2" and h2: "(0::nat) < 2" by simp_all
  show ?thesis
    using h1 h2 chunkText_overlap_clamped[OF h1 h2, of "noFloor defaultConfig" "''a b c''"] by blast
qed

text \<open>
  Claim C8 as stated fails: with \<open>chunkSize = 2\<close> and \<open>overlap = 2\<close> the call the
  specification rejects returns two chunks.
\<close>

theorem chunkText_accepts_overlap_not_below_chunkSize:
  "chunkTextSpec (noFloor defaultConfig) ''a b c'' 2 2 = Inl OverlapNotBelowChunkSize
   \<and> chunkText (noFloor defaultConfig) ''a b c'' (Some 2) (Some 2) = [''a b'', ''b c'']"
proof -
  have "chunkText (noFloor defaultConfig) ''a b c'' (Some 2) (Some 2) = [''a b'', ''b c'']"
    by (rule chunkText_abc) (simp_all add: noFloor_def)
  then show ?thesis by (simp add: chunkTextSpec_def)
qed

section \<open>Lemmas on the fusion map\<close>

lemma set_update_subset: "set (AList.update k v m) \<subseteq> insert (k, v) (set m)"
  by (induction m) auto

lemma wfMap_update: "wfMap m \<Longrightarrow> id' v = k \<Longrightarrow> wfMap (AList.update k v m)"
  unfolding wfMap_def using set_update_subset[of k v m]
  by (auto simp: distinct_update)

lemma wfMap_addKeyword: "wfMap m \<Longrightarrow> wfMap (addKeyword m r)"
  unfolding addKeyword_def by (rule wfMap_update) simp_all

lemma wfMap_addSemantic: "wfMap m \<Longrightarrow> wfMap (addSemantic m r)"
  unfolding addSemantic_def by (auto split: option.splits intro!: wfMap_update)

lemma wfMap_foldl_addKeyword: "wfMap m \<Longrightarrow> wfMap (foldl addKeyword m kw)"
  by (induction kw arbitrary: m) (simp_all add: wfMap_addKeyword)

lemma wfMap_foldl_addSemantic: "wfMap m \<Longrightarrow> wfMap (foldl addSemantic m sem)"
  by (induction sem arbitrary: m) (simp_all add: wfMap_addSemantic)

lemma wfMap_fuseMap: "wfMap (fuseMap kw sem)"
  unfolding fuseMap_def
  by (rule wfMap_foldl_addSemantic, rule wfMap_foldl_addKeyword) (simp add: wfMap_def)

lemma wfMap_ids: "wfMap m \<Longrightarrow> map id' (map snd m) = map fst m"
  unfolding wfMap_def by (induction m) auto

lemma wfMap_mem: "wfMap m \<Longrightarrow> v \<in> set (map snd m) \<longleftrightarrow> map_of m (id' v) = Some v"
  unfolding wfMap_def by (force simp: map_of_eq_Some_iff)

(* keyword phase *)

lemma map_of_addKeyword:
  "map_of (addKeyword m r) i = (if i = id' r then Some (r\<lparr>score := score r * 1.2\<rparr>) else map_of m i)"
  by (simp add: addKeyword_def update_conv')

lemma map_of_addSemantic:
  "map_of (addSemantic m r) i =
     (if i = id' r
      then Some (case map_of m (id' r) of
                   Some existing \<Rightarrow> r\<lparr>score := (score existing + score r) / 2\<rparr>
                 | None \<Rightarrow> r)
      else map_of m i)"
  by (simp add: addSemantic_def update_conv' split: option.splits)

lemma keyword_out:
  "i \<notin> id' ` set kw \<Longrightarrow> map_of (foldl addKeyword m kw) i = map_of m i"
  by (induction kw arbitrary: m) (simp_all add: map_of_addKeyword)

lemma keyword_in:
  "distinct (map id' kw) \<Longrightarrow> r \<in> set kw \<Longrightarrow>
     map_of (foldl addKeyword m kw) (id' r) = Some (r\<lparr>score := score r * 1.2\<rparr>)"
proof (induction kw arbitrary: m)
  case Nil
  then show ?case by simp
next
  case (Cons x xs)
  show ?case
  proof (cases "r = x")
    case True
    have "id' x \<notin> id' ` set xs" using Cons.prems(1) by simp
    then show ?thesis using True by (simp add: keyword_out map_of_addKeyword)
  next
    case False
    with Cons show ?thesis by simp
  qed
qed

lemma semantic_out:
  "i \<notin> id' ` set sem \<Longrightarrow> map_of (foldl addSemantic m sem) i = map_of m i"
  by (induction sem arbitrary: m) (simp_all add: map_of_addSemantic)

lemma semantic_in:
  "distinct (map id' sem) \<Longrightarrow> r \<in> set sem \<Longrightarrow>
     map_of (foldl addSemantic m sem) (id' r) =
       Some (case map_of m (id' r) of
               Some existing \<Rightarrow> r\<lparr>score := (score existing + score r) / 2\<rparr>
             | None \<Rightarrow> r)"
proof (induction sem arbitrary: m)
  case Nil
  then show ?case by simp
next
  case (Cons x xs)
  show ?case
  proof (cases "r = x")
    case True
    have "id' x \<notin> id' ` set xs" using Cons.prems(1) by simp
    then show ?thesis unfolding True by (simp add: semantic_out map_of_addSemantic)
  next
    case False
    with Cons.prems have r: "r \<in> set xs" and d: "distinct (map id' xs)"
      by simp_all
    have "id' x \<notin> id' ` set xs" using Cons.prems(1) by simp
    with r have ne: "id' r \<noteq> id' x" by (metis imageI)
    show ?thesis
      using Cons.IH[OF d r, of "addSemantic m x"] ne by (simp add: map_of_addSemantic)
  qed
qed

(* key order *)

lemma keys_addKeyword:
  "map fst (addKeyword m r) = (if id' r \<in> set (map fst m) then map fst m else map fst m @ [id' r])"
  by (simp add: addKeyword_def update_keys)

lemma keys_addSemantic:
  "map fst (addSemantic m r) = (if id' r \<in> set (map fst m) then map fst m else map fst m @ [id' r])"
  by (simp add: addSemantic_def update_keys split: option.splits)

lemma keys_foldl:
  assumes step: "\<And>m r. map fst (f m r) = (if id' r \<in> set (map fst m) then map fst m else map fst m @ [id' r])"
  shows "distinct (map id' xs) \<Longrightarrow>
     map fst (foldl f m xs) = map fst m @ filter (\<lambda>i. i \<notin> set (map fst m)) (map id' xs)"
proof (induction xs arbitrary: m)
  case Nil
  then show ?case by simp
next
  case (Cons x xs)
  then have d: "distinct (map id' xs)" and nx: "id' x \<notin> set (map id' xs)" by simp_all
  have nx': "id' y \<noteq> id' x" if "y \<in> set xs" for y
    using nx that by (metis imageI set_map)
  have f: "filter (\<lambda>i. i \<noteq> id' x \<and> P i) (map id' xs) = filter P (map id' xs)" for P
    by (intro filter_cong) (auto dest: nx')
  show ?case
    using Cons.IH[OF d, of "f m x"] by (simp add: step f)
qed

lemma keys_fuseMap:
  assumes "distinct (map id' kw)" "distinct (map id' sem)"
  shows "map fst (fuseMap kw sem) = map id' kw @ filter (\<lambda>i. i \<notin> set (map id' kw)) (map id' sem)"
proof -
  have k: "map fst (foldl addKeyword [] kw) = map id' kw"
    using keys_foldl[of addKeyword kw "[]", OF keys_addKeyword assms(1)] by simp
  show ?thesis
    unfolding fuseMap_def
    using keys_foldl[of addSemantic sem "foldl addKeyword [] kw", OF keys_addSemantic assms(2)]
    by (simp add: k)
qed

lemma set_fuse: "set (fuse kw sem) = snd ` set (fuseMap kw sem)"
  by (simp add: fuse_def sortByScoreDesc_set)

lemma fuse_mem: "v \<in> set (fuse kw sem) \<longleftrightarrow> map_of (fuseMap kw sem) (id' v) = Some v"
  using wfMap_mem[OF wfMap_fuseMap, of v kw sem] by (simp add: set_fuse)

lemma ids_fuse_distinct: "distinct (map id' (fuse kw sem))"
proof -
  have "mset (map id' (fuse kw sem)) = mset (map id' (map snd (fuseMap kw sem)))"
    unfolding fuse_def by (simp add: sortByScoreDesc_mset del: map_map)
  also have "\<dots> = mset (map fst (fuseMap kw sem))"
    by (simp only: wfMap_ids[OF wfMap_fuseMap])
  finally have "mset (map id' (fuse kw sem)) = mset (map fst (fuseMap kw sem))" .
  moreover have "distinct (map fst (fuseMap kw sem))"
    using wfMap_fuseMap[of kw sem] by (simp add: wfMap_def)
  ultimately show ?thesis by (metis mset_eq_imp_distinct_iff)
qed

lemma keys_foldl_set:
  assumes step: "\<And>m r. map fst (f m r) = (if id' r \<in> set (map fst m) then map fst m else map fst m @ [id' r])"
  shows "fst ` set (foldl f m xs) = fst ` set m \<union> id' ` set xs"
proof (induction xs arbitrary: m)
  case Nil
  then show ?case by simp
next
  case (Cons x xs)
  have "fst ` set (f m x) = insert (id' x) (fst ` set m)"
    using step[of m x] by (metis (no_types, lifting) insert_absorb list.set_map set_append list.simps(15) Un_insert_right sup_bot.right_neutral empty_set)
  with Cons.IH[of "f m x"] show ?case by auto
qed

lemma ids_fuse: "set (map id' (fuse kw sem)) = id' ` set kw \<union> id' ` set sem"
proof -
  have "set (map id' (fuse kw sem)) = set (map id' (map snd (fuseMap kw sem)))"
    by (simp add: fuse_def sortByScoreDesc_set image_image)
  also have "\<dots> = fst ` set (fuseMap kw sem)"
    by (simp only: wfMap_ids[OF wfMap_fuseMap] set_map)
  also have "\<dots> = id' ` set kw \<union> id' ` set sem"
    unfolding fuseMap_def
    by (simp add: keys_foldl_set[of addSemantic, OF keys_addSemantic]
          keys_foldl_set[of addKeyword, OF keys_addKeyword])
  finally show ?thesis .
qed

lemma fuseMap_both:
  assumes "distinct (map id' kw)" "distinct (map id' sem)" "k \<in> set kw" "v \<in> set sem" "id' k = id' v"
  shows "map_of (fuseMap kw sem) (id' v) = Some (v\<lparr>score := (score k * 1.2 + score v) / 2\<rparr>)"
proof -
  have "map_of (foldl addKeyword [] kw) (id' v) = Some (k\<lparr>score := score k * 1.2\<rparr>)"
    using keyword_in[OF assms(1,3), of "[]"] assms(5) by simp
  then show ?thesis
    unfolding fuseMap_def using semantic_in[OF assms(2,4), of "foldl addKeyword [] kw"] by simp
qed

lemma fuseMap_keyword_only:
  assumes "distinct (map id' kw)" "k \<in> set kw" "id' k \<notin> id' ` set sem"
  shows "map_of (fuseMap kw sem) (id' k) = Some (k\<lparr>score := score k * 1.2\<rparr>)"
  unfolding fuseMap_def using semantic_out[OF assms(3)] keyword_in[OF assms(1,2), of "[]"] by simp

lemma fuseMap_semantic_only:
  assumes "distinct (map id' sem)" "v \<in> set sem" "id' v \<notin> id' ` set kw"
  shows "map_of (fuseMap kw sem) (id' v) = Some v"
proof -
  have "map_of (foldl addKeyword [] kw) (id' v) = None"
    using keyword_out[OF assms(3), of "[]"] by simp
  then show ?thesis
    unfolding fuseMap_def using semantic_in[OF assms(1,2), of "foldl addKeyword [] kw"] by simp
qed

lemma fuse_example:
  "fuse [exampleResult ''p1'' 0.6 ''T1'']
        [exampleResult ''p1'' 0.8 ''T1'', exampleResult ''p2'' 0.7 ''T2'']
     = [exampleResult ''p1'' 0.76 ''T1'', exampleResult ''p2'' 0.7 ''T2'']"
  by (simp add: fuse_def fuseMap_def addKeyword_def addSemantic_def sortByScoreDesc_def
        exampleResult_def)

section \<open>Fusion\<close>

text \<open>
  Claim C2, as amended. For result lists in which no id occurs twice (what one query of
  an index keyed by id returns), the fused list holds, for every id of either list, exactly
  one candidate: with the score \<open>(1.2 \<times> lexicalScore + vectorScore) / 2\<close> when the
  id is in both lists, \<open>lexicalScore \<times> 1.2\<close> when it is only in the lexical list, and
  the vector result unchanged when it is only in the vector list. With lexical
  \<open>p1 = 0.6\<close> and vector \<open>p1 = 0.8\<close>, \<open>p2 = 0.7\<close>, fusion yields \<open>p1 = 0.76\<close>
  and \<open>p2 = 0.7\<close>, in that order.
\<close>

theorem fusion_scores:
  assumes "distinct (map id' keywordResults)" and "distinct (map id' semanticResults)"
  shows "(\<forall>k\<in>set keywordResults. \<forall>v\<in>set semanticResults. id' k = id' v \<longrightarrow>
            v\<lparr>score := (1.2 * score k + score v) / 2\<rparr> \<in> set (fuse keywordResults semanticResults))
       \<and> (\<forall>k\<in>set keywordResults. id' k \<notin> id' ` set semanticResults \<longrightarrow>
            k\<lparr>score := score k * 1.2\<rparr> \<in> set (fuse keywordResults semanticResults))
       \<and> (\<forall>v\<in>set semanticResults. id' v \<notin> id' ` set keywordResults \<longrightarrow>
            v \<in> set (fuse keywordResults semanticResults))
       \<and> distinct (map id' (fuse keywordResults semanticResults))
       \<and> set (map id' (fuse keywordResults semanticResults))
            = id' ` set keywordResults \<union> id' ` set semanticResults
       \<and> fuse [exampleResult ''p1'' 0.6 ''T1'']
               [exampleResult ''p1'' 0.8 ''T1'', exampleResult ''p2'' 0.7 ''T2'']
            = [exampleResult ''p1'' 0.76 ''T1'', exampleResult ''p2'' 0.7 ''T2'']"
proof -
  have both: "v\<lparr>score := (1.2 * score k + score v) / 2\<rparr> \<in> set (fuse keywordResults semanticResults)"
    if "k \<in> set keywordResults" "v \<in> set semanticResults" "id' k = id' v" for k v
    using fuseMap_both[OF assms that] by (simp add: fuse_mem mult.commute)
  have kwOnly: "k\<lparr>score := score k * 1.2\<rparr> \<in> set (fuse keywordResults semanticResults)"
    if "k \<in> set keywordResults" "id' k \<notin> id' ` set semanticResults" for k
    using fuseMap_keyword_only[OF assms(1) that] by (simp add: fuse_mem)
  have semOnly: "v \<in> set (fuse keywordResults semanticResults)"
    if "v \<in> set semanticResults" "id' v \<notin> id' ` set keywordResults" for v
    using fuseMap_semantic_only[OF assms(2) that] by (simp add: fuse_mem)
  show ?thesis
    using both kwOnly semOnly ids_fuse_distinct ids_fuse fuse_example by blast
qed

theorem fusion_scores_witness:
  "distinct (map id' [exampleResult ''p1'' 0.6 ''T1''])
   \<and> distinct (map id' [exampleResult ''p1'' 0.8 ''T1'', exampleResult ''p2'' 0.7 ''T2''])
   \<and> exampleResult ''p1'' 0.76 ''T1''
        \<in> set (fuse [exampleResult ''p1'' 0.6 ''T1'']
                   [exampleResult ''p1'' 0.8 ''T1'', exampleResult ''p2'' 0.7 ''T2''])
   \<and> exampleResult ''p2'' 0.7 ''T2''
        \<in> set (fuse [exampleResult ''p1'' 0.6 ''T1'']
                   [exampleResult ''p1'' 0.8 ''T1'', exampleResult ''p2'' 0.7 ''T2''])"
proof -
  have d1: "distinct (map id' [exampleResult ''p1'' 0.6 ''T1''])" by simp
  have d2: "distinct (map id' [exampleResult ''p1'' 0.8 ''T1'', exampleResult ''p2'' 0.7 ''T2''])"
    by (simp add: exampleResult_def)
  show ?thesis
    using d1 d2 fusion_scores[OF d1 d2] by (simp add: exampleResult_def)
qed

text \<open>
  Claim C2 as stated fails: a passage that the vector list holds twice, with 0.8 and
  with 0.6, and the lexical list does not hold, is fused to the average 0.7 of the two;
  neither vector result comes out unchanged.
\<close>

theorem fusion_repeated_id_averaged:
  "fuse [] [exampleResult ''p1'' 0.8 ''T1'', exampleResult ''p1'' 0.6 ''T1'']
     = [exampleResult ''p1'' 0.7 ''T1'']
   \<and> exampleResult ''p1'' 0.8 ''T1''
        \<notin> set (fuse [] [exampleResult ''p1'' 0.8 ''T1'', exampleResult ''p1'' 0.6 ''T1''])
   \<and> exampleResult ''p1'' 0.6 ''T1''
        \<notin> set (fuse [] [exampleResult ''p1'' 0.8 ''T1'', exampleResult ''p1'' 0.6 ''T1''])"
  by (simp add: fuse_def fuseMap_def addSemantic_def sortByScoreDesc_def exampleResult_def)

lemma hybridSearch_fuse:
  assumes "queryItems idx queryEmbedding (case sK of None \<Rightarrow> 20 | Some k \<Rightarrow> k) = Some raw"
  shows "hybridSearch idx query queryEmbedding kK sK =
           Inr (fuse (keywordHits idx query (case kK of None \<Rightarrow> 10 | Some k \<Rightarrow> k))
                     (filter (\<lambda>r. 0.5 \<le> score r) raw))"
  using assms by (simp add: hybridSearch_def semanticSearch_def metaKeywordSearch_def)

text \<open>
  Claim C3, as amended. The fused list is sorted descending by fused score, and the
  sort is stable: candidates with equal score keep the insertion order of the fusion
  map, which (for lists without repeated ids) is the lexical results in lexical order
  followed by the vector-only results in vector order. Ids play no part in the order.
\<close>

theorem fuse_order:
  "sorted_wrt (\<lambda>x y. score y \<le> score x) (fuse keywordResults semanticResults)
   \<and> filter (\<lambda>r. score r = s) (fuse keywordResults semanticResults)
       = filter (\<lambda>r. score r = s) (map snd (fuseMap keywordResults semanticResults))
   \<and> (distinct (map id' keywordResults) \<and> distinct (map id' semanticResults) \<longrightarrow>
        map id' (map snd (fuseMap keywordResults semanticResults))
          = map id' keywordResults
            @ filter (\<lambda>i. i \<notin> set (map id' keywordResults)) (map id' semanticResults))"
proof -
  have "map id' (map snd (fuseMap keywordResults semanticResults))
          = map id' keywordResults
            @ filter (\<lambda>i. i \<notin> set (map id' keywordResults)) (map id' semanticResults)"
    if "distinct (map id' keywordResults)" "distinct (map id' semanticResults)"
    by (simp only: wfMap_ids[OF wfMap_fuseMap] keys_fuseMap[OF that])
  then show ?thesis
    unfolding fuse_def using sortByScoreDesc_sorted sortByScoreDesc_stable by blast
qed

theorem fuse_order_witness:
  "distinct (map id' ([] :: SearchResult list))
   \<and> distinct (map id' [exampleResult ''b'' 0.7 ''T1'', exampleResult ''a'' 0.7 ''T2''])
   \<and> map id' (map snd (fuseMap [] [exampleResult ''b'' 0.7 ''T1'', exampleResult ''a'' 0.7 ''T2'']))
       = [''b'', ''a'']
   \<and> map id' (filter (\<lambda>r. score r = 0.7)
        (fuse [] [exampleResult ''b'' 0.7 ''T1'', exampleResult ''a'' 0.7 ''T2''])) = [''b'', ''a'']"
proof -
  have d: "distinct (map id' [exampleResult ''b'' 0.7 ''T1'', exampleResult ''a'' 0.7 ''T2''])"
    by (simp add: exampleResult_def)
  have ids: "map id' (map snd (fuseMap [] [exampleResult ''b'' 0.7 ''T1'', exampleResult ''a'' 0.7 ''T2'']))
       = [''b'', ''a'']"
    using d fuse_order[of "[]" "[exampleResult ''b'' 0.7 ''T1'', exampleResult ''a'' 0.7 ''T2'']" "0.7"]
    by (simp add: exampleResult_def)
  have sc: "filter (\<lambda>r. score r = 0.7)
              (map snd (fuseMap [] [exampleResult ''b'' 0.7 ''T1'', exampleResult ''a'' 0.7 ''T2'']))
            = map snd (fuseMap [] [exampleResult ''b'' 0.7 ''T1'', exampleResult ''a'' 0.7 ''T2''])"
    by (simp add: fuseMap_def addSemantic_def exampleResult_def)
  have "filter (\<lambda>r. score r = 0.7) (fuse [] [exampleResult ''b'' 0.7 ''T1'', exampleResult ''a'' 0.7 ''T2''])
          = map snd (fuseMap [] [exampleResult ''b'' 0.7 ''T1'', exampleResult ''a'' 0.7 ''T2''])"
    using fuse_order[of "[]" "[exampleResult ''b'' 0.7 ''T1'', exampleResult ''a'' 0.7 ''T2'']" "0.7"] sc
    by simp
  with ids d show ?thesis by simp
qed

text \<open>
  Claim C3 as stated fails: two vector results with equal score, \<open>b\<close> returned before
  \<open>a\<close>, come out as \<open>[b, a]\<close>, which is not ascending by id.
\<close>

theorem hybridSearch_ties_not_by_id:
  "hybridSearch tieIndex ''login'' [] None None
     = Inr [exampleResult ''b'' 0.7 ''T1'', exampleResult ''a'' 0.7 ''T2'']
   \<and> \<not> scoreDescIdAscSpec [exampleResult ''b'' 0.7 ''T1'', exampleResult ''a'' 0.7 ''T2'']"
proof -
  have "\<not> (''b'' :: string) < ''a''" by code_simp
  then have "\<not> scoreDescIdAscSpec [exampleResult ''b'' 0.7 ''T1'', exampleResult ''a'' 0.7 ''T2'']"
    by (simp add: scoreDescIdAscSpec_def exampleResult_def)
  moreover have "hybridSearch tieIndex ''login'' [] None None
     = Inr [exampleResult ''b'' 0.7 ''T1'', exampleResult ''a'' 0.7 ''T2'']"
    by (simp add: hybridSearch_def semanticSearch_def metaKeywordSearch_def tieIndex_def
          fuse_def fuseMap_def addSemantic_def sortByScoreDesc_def exampleResult_def)
  ultimately show ?thesis by simp
qed

lemma addSemantic_floor:
  assumes inv: "\<forall>(k, v)\<in>set m. k \<in> A \<or> c \<le> score v" and r: "c \<le> score r"
  shows "\<forall>(k, v)\<in>set (addSemantic m r). k \<in> A \<or> c \<le> score v"
proof (cases "map_of m (id' r)")
  case None
  then have "set (addSemantic m r) \<subseteq> insert (id' r, r) (set m)"
    by (simp add: addSemantic_def set_update_subset)
  with inv r show ?thesis by auto
next
  case (Some existing)
  then have "(id' r, existing) \<in> set m" by (rule map_of_SomeD)
  with inv have e: "id' r \<in> A \<or> c \<le> score existing" by auto
  have "set (addSemantic m r)
          \<subseteq> insert (id' r, r\<lparr>score := (score existing + score r) / 2\<rparr>) (set m)"
    using Some by (simp add: addSemantic_def set_update_subset)
  moreover have "id' r \<in> A \<or> c \<le> (score existing + score r) / 2"
    using e r by auto
  ultimately show ?thesis using inv by auto
qed

lemma foldl_addSemantic_floor:
  assumes "\<forall>(k, v)\<in>set m. k \<in> A \<or> c \<le> score v" and "\<forall>r\<in>set sem. c \<le> score r"
  shows "\<forall>(k, v)\<in>set (foldl addSemantic m sem). k \<in> A \<or> c \<le> score v"
  using assms
proof (induction sem arbitrary: m)
  case Nil
  then show ?case by simp
next
  case (Cons x xs)
  have "\<forall>(k, v)\<in>set (addSemantic m x). k \<in> A \<or> c \<le> score v"
    using addSemantic_floor[OF Cons.prems(1), of x] Cons.prems(2) by simp
  then show ?case using Cons.IH[of "addSemantic m x"] Cons.prems(2) by simp
qed

lemma fuse_floor:
  assumes "\<forall>r\<in>set sem. c \<le> score r" and "v \<in> set (fuse kw sem)"
  shows "id' v \<in> id' ` set kw \<or> c \<le> score v"
proof -
  have keys: "fst ` set (foldl addKeyword [] kw) = id' ` set kw"
    by (simp add: keys_foldl_set[of addKeyword, OF keys_addKeyword])
  then have "\<forall>(k, v)\<in>set (foldl addKeyword [] kw). k \<in> id' ` set kw \<or> c \<le> score v"
    by force
  then have inv: "\<forall>(k, v)\<in>set (fuseMap kw sem). k \<in> id' ` set kw \<or> c \<le> score v"
    unfolding fuseMap_def using assms(1) by (rule foldl_addSemantic_floor)
  from assms(2) have "map_of (fuseMap kw sem) (id' v) = Some v" by (simp add: fuse_mem)
  then have "(id' v, v) \<in> set (fuseMap kw sem)" by (rule map_of_SomeD)
  with inv show ?thesis by auto
qed

text \<open>
  Claim C1, as amended. \<open>hybridSearch\<close> calls \<open>semanticSearch\<close> without a minimum
  score, so the default floor 0.5 applies: vector results with similarity below 0.5
  are removed before fusion, and every candidate of the fused list whose id is not a
  lexical result has score at least 0.5. The caller \<open>retrieveRelevantChunks\<close> applies
  the \<open>minSimilarityScore\<close> cutoff to the fused list, after fusion.
\<close>

theorem hybridSearch_floor:
  assumes "queryItems idx queryEmbedding sK = Some raw"
  shows "semanticSearch idx queryEmbedding (Some sK) None = Inr (filter (\<lambda>r. 0.5 \<le> score r) raw)
       \<and> hybridSearch idx query queryEmbedding (Some kK) (Some sK)
           = Inr (fuse (keywordHits idx query kK) (filter (\<lambda>r. 0.5 \<le> score r) raw))
       \<and> (\<forall>v\<in>set (fuse (keywordHits idx query kK) (filter (\<lambda>r. 0.5 \<le> score r) raw)).
             id' v \<in> id' ` set (keywordHits idx query kK) \<or> 0.5 \<le> score v)
       \<and> (keywordTopK (retrieval cfg) = kK \<and> semanticTopK (retrieval cfg) = sK \<longrightarrow>
            retrieveRelevantChunks cfg idx query (Some queryEmbedding)
              = Inr (filter (\<lambda>r. minSimilarityScore (retrieval cfg) \<le> score r)
                       (fuse (keywordHits idx query kK) (filter (\<lambda>r. 0.5 \<le> score r) raw))))"
proof -
  have sem: "semanticSearch idx queryEmbedding (Some sK) None = Inr (filter (\<lambda>r. 0.5 \<le> score r) raw)"
    using assms by (simp add: semanticSearch_def)
  have hyb: "hybridSearch idx query queryEmbedding (Some kK) (Some sK)
           = Inr (fuse (keywordHits idx query kK) (filter (\<lambda>r. 0.5 \<le> score r) raw))"
    using hybridSearch_fuse[of idx queryEmbedding "Some sK" raw query "Some kK"] assms by simp
  have floor: "\<forall>v\<in>set (fuse (keywordHits idx query kK) (filter (\<lambda>r. 0.5 \<le> score r) raw)).
             id' v \<in> id' ` set (keywordHits idx query kK) \<or> 0.5 \<le> score v"
    using fuse_floor[of "filter (\<lambda>r. 0.5 \<le> score r) raw" "0.5"] by simp
  have "retrieveRelevantChunks cfg idx query (Some queryEmbedding)
              = Inr (filter (\<lambda>r. minSimilarityScore (retrieval cfg) \<le> score r)
                       (fuse (keywordHits idx query kK) (filter (\<lambda>r. 0.5 \<le> score r) raw)))"
    if "keywordTopK (retrieval cfg) = kK" "semanticTopK (retrieval cfg) = sK"
    using hyb that by (simp add: retrieveRelevantChunks_def)
  with sem hyb floor show ?thesis by blast
qed

theorem hybridSearch_floor_witness:
  "queryItems lowScoreIndex [] 20 = Some [exampleResult ''p1'' 0.3 ''T1'']
   \<and> keywordTopK (retrieval defaultConfig) = 10 \<and> semanticTopK (retrieval defaultConfig) = 20
   \<and> semanticSearch lowScoreIndex [] (Some 20) None = Inr []
   \<and> hybridSearch lowScoreIndex ''login'' [] (Some 10) (Some 20) = Inr [exampleResult ''p1'' 0.6 ''T1'']
   \<and> retrieveRelevantChunks defaultConfig lowScoreIndex ''login'' (Some [])
        = Inr [exampleResult ''p1'' 0.6 ''T1'']"
proof -
  have q: "queryItems lowScoreIndex [] 20 = Some [exampleResult ''p1'' 0.3 ''T1'']"
    by (simp add: lowScoreIndex_def)
  have k: "keywordTopK (retrieval defaultConfig) = 10" "semanticTopK (retrieval defaultConfig) = 20"
    by (simp_all add: defaultConfig_def)
  show ?thesis
    using q k hybridSearch_floor[OF q, of "''login''" 10 defaultConfig]
    by (simp add: lowScoreIndex_def fuse_def fuseMap_def addKeyword_def sortByScoreDesc_def
          exampleResult_def defaultConfig_def)
qed

text \<open>
  Claim C1 as stated fails: for a passage with lexical score 0.5 and vector score 0.3
  the code drops the vector result before fusion and returns the passage with 0.6; with
  the floor 0 the fused score would be 0.45.
\<close>

theorem hybridSearch_floor_not_zero:
  "hybridSearch lowScoreIndex ''login'' [] (Some 10) (Some 20) = Inr [exampleResult ''p1'' 0.6 ''T1'']
   \<and> hybridSearchSpec lowScoreIndex ''login'' [] 10 20 = Inr [exampleResult ''p1'' 0.45 ''T1'']
   \<and> hybridSearch lowScoreIndex ''login'' [] (Some 10) (Some 20)
       \<noteq> hybridSearchSpec lowScoreIndex ''login'' [] 10 20"
  by (simp add: hybridSearch_def hybridSearchSpec_def semanticSearch_def metaKeywordSearch_def
        lowScoreIndex_def fuse_def fuseMap_def addKeyword_def addSemantic_def sortByScoreDesc_def
        exampleResult_def)

section \<open>Lemmas on the reranker\<close>

lemma diversityLoop_Cons:
  "diversityLoop k (r # rest) d sel =
     (if ticketUid (RerankResult.metadata r) \<in> sel
      then (if real (length d) < real k / 2
            then (if k \<le> Suc (length d) then d @ [r] else diversityLoop k rest (d @ [r]) sel)
            else (if k \<le> length d then d else diversityLoop k rest d sel))
      else (if k \<le> Suc (length d) then d @ [r]
            else diversityLoop k rest (d @ [r]) (insert (ticketUid (RerankResult.metadata r)) sel)))"
  by (simp del: of_nat_less_iff)

declare diversityLoop.simps(2) [simp del]



lemma diversityLoop_cap:
  assumes "0 < k"
    and "\<forall>t. fromTicket t d \<le> (k + 1) div 2"
    and "\<forall>t. t \<notin> sel \<longrightarrow> fromTicket t d = 0"
  shows "fromTicket t (diversityLoop k rs d sel) \<le> (k + 1) div 2"
  using assms
proof (induction rs arbitrary: d sel)
  case Nil
  then show ?case by simp
next
  case (Cons r rs)
  let ?u = "ticketUid (RerankResult.metadata r)"
  show ?case
  proof (cases "?u \<in> sel")
    case seen: True
    show ?thesis
    proof (cases "real (length d) < real k / 2")
      case True
      then have lt: "2 * length d < k" by linarith
      have cap: "\<forall>t. fromTicket t (d @ [r]) \<le> (k + 1) div 2"
      proof
        fix t
        have "fromTicket t (d @ [r]) \<le> length (d @ [r])" by (rule length_filter_le)
        also have "\<dots> \<le> (k + 1) div 2" using lt by simp
        finally show "fromTicket t (d @ [r]) \<le> (k + 1) div 2" .
      qed
      have unseen: "\<forall>t. t \<notin> sel \<longrightarrow> fromTicket t (d @ [r]) = 0"
        using Cons.prems(3) seen by auto
      have "fromTicket t (diversityLoop k rs (d @ [r]) sel) \<le> (k + 1) div 2"
        by (rule Cons.IH[OF Cons.prems(1) cap unseen])
      with seen True cap show ?thesis unfolding diversityLoop_Cons by simp
    next
      case False
      have "fromTicket t (diversityLoop k rs d sel) \<le> (k + 1) div 2"
        by (rule Cons.IH[OF Cons.prems])
      with seen False Cons.prems(2) show ?thesis unfolding diversityLoop_Cons by simp
    qed
  next
    case False
    have cap: "\<forall>t. fromTicket t (d @ [r]) \<le> (k + 1) div 2"
    proof
      fix t
      show "fromTicket t (d @ [r]) \<le> (k + 1) div 2"
      proof (cases "t = ?u")
        case True
        with False Cons.prems(3) have "fromTicket t d = 0" by blast
        with True Cons.prems(1) show ?thesis by simp
      next
        case False
        with Cons.prems(2) show ?thesis by simp
      qed
    qed
    have unseen: "\<forall>t. t \<notin> insert ?u sel \<longrightarrow> fromTicket t (d @ [r]) = 0"
      using Cons.prems(3) by auto
    have "fromTicket t (diversityLoop k rs (d @ [r]) (insert ?u sel)) \<le> (k + 1) div 2"
      by (rule Cons.IH[OF Cons.prems(1) cap unseen])
    with False cap show ?thesis unfolding diversityLoop_Cons by simp
  qed
qed

lemma diversityLoop_length:
  "length d < k \<Longrightarrow> length (diversityLoop k rs d sel) \<le> k"
proof (induction rs arbitrary: d sel)
  case Nil
  then show ?case by simp
next
  case (Cons r rs)
  show ?case
    unfolding diversityLoop_Cons using Cons.IH Cons.prems
    by (simp add: not_le)
qed


lemma score_toRerankResult [simp]: "RerankResult.score (toRerankResult r s i) = s"
  by (simp add: toRerankResult_def)

lemma metadata_toRerankResult [simp]: "RerankResult.metadata (toRerankResult r s i) = metadata r"
  by (simp add: toRerankResult_def)

lemma id_toRerankResult [simp]: "RerankResult.id' (toRerankResult r s i) = id' r"
  by (simp add: toRerankResult_def)

lemma rerankChunks_failed: "rerankChunks ScorerFailed chunks = replicate (length chunks) 0.5"
  by (simp add: rerankChunks_def map_replicate_const)

lemma mset_insertReranked: "mset (insertReranked x ys) = add_mset x (mset ys)"
  by (induction ys) simp_all

lemma mset_sortReranked: "mset (sortReranked xs) = mset xs"
  unfolding sortReranked_def by (induction xs) (simp_all add: mset_insertReranked)


lemma set_sortReranked: "set (sortReranked xs) = set xs"
  using mset_sortReranked[of xs] by (metis set_mset_mset)

lemma insertReranked_defined:
  assumes "RerankResult.score x \<noteq> None" and "\<forall>y\<in>set ys. RerankResult.score y \<noteq> None"
  shows "insertReranked x ys = insort_key (\<lambda>r. - the (RerankResult.score r)) x ys"
  using assms by (induction ys) (auto simp: sortCompare_def)

lemma sortReranked_defined:
  assumes "\<forall>r\<in>set xs. RerankResult.score r \<noteq> None"
  shows "sortReranked xs = sort_key (\<lambda>r. - the (RerankResult.score r)) xs"
  using assms
proof (induction xs)
  case Nil
  show ?case by (simp add: sortReranked_def)
next
  case (Cons x xs)
  then have ih: "sortReranked xs = sort_key (\<lambda>r. - the (RerankResult.score r)) xs" by simp
  have "\<forall>y\<in>set (sortReranked xs). RerankResult.score y \<noteq> None"
    using Cons.prems by (simp add: set_sortReranked)
  then have "insertReranked x (sortReranked xs)
               = insort_key (\<lambda>r. - the (RerankResult.score r)) x (sortReranked xs)"
    using Cons.prems by (intro insertReranked_defined) simp_all
  then show ?case by (simp add: sortReranked_def ih[unfolded sortReranked_def])
qed



lemma sortReranked_const:
  assumes "map RerankResult.score xs = replicate (length xs) (Some c)"
  shows "sortReranked xs = xs"
proof -
  have eq: "\<forall>x\<in>set xs. RerankResult.score x = Some c"
    using assms by (metis in_set_conv_nth length_map nth_map nth_replicate)
  then have d: "\<forall>r\<in>set xs. RerankResult.score r \<noteq> None" by simp
  have "sorted (map (\<lambda>r. - the (RerankResult.score r)) xs)"
    using eq by (simp add: sorted_map sorted_wrt_iff_nth_less)
  then show ?thesis
    unfolding sortReranked_defined[OF d] by (rule sort_key_id_if_sorted)
qed

lemma rerankWithOpenAI_unfold:
  "rerankWithOpenAI cfg outcome results topK =
     take (finalTopK cfg topK) (sortReranked (mapIndexed (\<lambda>result index.
        toRerankResult result (scoreAt (rerankChunks outcome (map text' results)) index) index) results))"
  by (simp add: rerankWithOpenAI_def Let_def mapIndexed_def sortReranked_def)

lemma mapIndexed_failed:
  "mapIndexed (\<lambda>result index. toRerankResult result (scoreAt (replicate (length results) c) index) index) results
     = mapIndexed (\<lambda>result index. toRerankResult result (Some c) index) results"
  by (rule nth_equalityI) (simp_all add: length_mapIndexed nth_mapIndexed scoreAt_def)

lemma score_mapIndexed_const:
  "map RerankResult.score (mapIndexed (\<lambda>result index. toRerankResult result c index) xs)
     = replicate (length xs) c"
  by (rule nth_equalityI) (simp_all add: length_mapIndexed nth_mapIndexed)

section \<open>Reranker fallback\<close>

text \<open>
  Claim C5, as amended. When the relevance-scoring call fails, \<open>rerankChunks\<close> returns
  one score 0.5 per candidate and \<open>rerankWithOpenAI\<close> returns no error: its result is
  the candidates in their input order, each with score 0.5 and its input position as
  \<open>originalIndex\<close>, truncated to \<open>topK\<close>. The number of results is therefore
  the minimum of \<open>topK\<close> and the number of candidates.
\<close>

theorem rerank_fallback:
  "rerankChunks ScorerFailed (map text' results) = replicate (length results) 0.5
   \<and> rerankWithOpenAI cfg ScorerFailed results topK =
       take (finalTopK cfg topK)
         (mapIndexed (\<lambda>result index. toRerankResult result (Some 0.5) index) results)
   \<and> length (rerankWithOpenAI cfg ScorerFailed results topK)
       = min (finalTopK cfg topK) (length results)
   \<and> map RerankResult.score (rerankWithOpenAI cfg ScorerFailed results topK)
       = replicate (length (rerankWithOpenAI cfg ScorerFailed results topK)) (Some 0.5)"
proof -
  let ?plain = "mapIndexed (\<lambda>result index. toRerankResult result (Some 0.5) index) results"
  have scores: "rerankChunks ScorerFailed (map text' results) = replicate (length results) 0.5"
    by (simp add: rerankChunks_failed)
  have all_half: "map RerankResult.score ?plain = replicate (length ?plain) (Some 0.5)"
    by (simp only: score_mapIndexed_const length_mapIndexed)
  have "rerankWithOpenAI cfg ScorerFailed results topK = take (finalTopK cfg topK) (sortReranked ?plain)"
    by (simp only: rerankWithOpenAI_unfold scores mapIndexed_failed)
  moreover have "sortReranked ?plain = ?plain"
    by (rule sortReranked_const[OF all_half])
  ultimately have eq: "rerankWithOpenAI cfg ScorerFailed results topK = take (finalTopK cfg topK) ?plain"
    by simp
  have "map RerankResult.score (take (finalTopK cfg topK) ?plain)
          = replicate (length (take (finalTopK cfg topK) ?plain)) (Some 0.5)"
    by (simp add: take_map[symmetric] score_mapIndexed_const length_mapIndexed min.commute)
  with eq scores show ?thesis by (simp add: length_mapIndexed min.commute)
qed

text \<open>
  Claim C5 as stated fails: with two candidates and \<open>topK = 1\<close> the fallback returns
  one result, not two.
\<close>

theorem rerank_fallback_truncates:
  "rerankWithOpenAI defaultConfig ScorerFailed
     [exampleResult ''p1'' 0.9 ''T1'', exampleResult ''p2'' 0.8 ''T2''] (Some 1)
     = [toRerankResult (exampleResult ''p1'' 0.9 ''T1'') (Some 0.5) 0]
   \<and> length [toRerankResult (exampleResult ''p1'' 0.9 ''T1'') (Some 0.5) 0]
       \<noteq> length [exampleResult ''p1'' 0.9 ''T1'', exampleResult ''p2'' 0.8 ''T2'']"
  by (simp add: rerankWithOpenAI_def rerankChunks_def mapIndexed_def sortReranked_def
        sortCompare_def scoreAt_def finalTopK_def toRerankResult_def Let_def upt_rec)

section \<open>Score-only rerank\<close>

text \<open>
  Claim C10. \<open>rerankByScore\<close> sorts its argument in place: after the call the store
  holds, at the reference of the caller's array, the same candidates reordered
  descending by score (a stable sort of the array it held before), and every other
  array is untouched. The returned list is built from the first \<open>topK\<close> elements of
  that sorted array; its elements are records of another type, \<open>RerankResult\<close>.
\<close>

theorem rerankByScore_sorts_in_place:
  "fst (rerankByScore cfg h a topK) = h(a := sortByScoreDesc (h a))
   \<and> sorted_wrt (\<lambda>x y. score y \<le> score x) (fst (rerankByScore cfg h a topK) a)
   \<and> mset (fst (rerankByScore cfg h a topK) a) = mset (h a)
   \<and> map RerankResult.id' (snd (rerankByScore cfg h a topK))
       = map id' (take (finalTopK cfg topK) (sortByScoreDesc (h a)))
   \<and> snd (rerankByScore cfg h a topK)
       = mapIndexed (\<lambda>result index. toRerankResult result (Some (score result)) index)
           (take (finalTopK cfg topK) (sortByScoreDesc (h a)))"
proof -
  have m: "map RerankResult.id' (mapIndexed (\<lambda>result index. toRerankResult result (Some (score result)) index) xs)
             = map id' xs" for xs :: "SearchResult list"
    by (rule nth_equalityI) (simp_all add: length_mapIndexed nth_mapIndexed)
  show ?thesis
    by (simp add: rerankByScore_def Let_def sortByScoreDesc_sorted sortByScoreDesc_mset m)
qed

text \<open>An array held as \<open>[0.2, 0.9]\<close> is \<open>[0.9, 0.2]\<close> after the call.\<close>

lemma rerankByScore_reorders:
  "map score (fst (rerankByScore defaultConfig
        (\<lambda>r. [exampleResult ''p1'' 0.2 ''T1'', exampleResult ''p2'' 0.9 ''T2'']) 0 None) 0)
     = [0.9, 0.2]"
  by (simp add: rerankByScore_def sortByScoreDesc_def exampleResult_def)





section \<open>Diversity-aware rerank\<close>




text \<open>
  Claim C4 at \<open>topK = 0\<close>. The loop tests its bound only after a push, so the first
  candidate is accepted before the test: one result comes back, from one ticket, where
  the cap \<open>ceil(0/2)\<close> and the bound \<open>K\<close> both allow none.
\<close>

theorem rerankWithDiversity_topK_zero:
  "rerankWithDiversity defaultConfig ScorerFailed [exampleResult ''p1'' 0.9 ''T1''] (Some 0)
     = [toRerankResult (exampleResult ''p1'' 0.9 ''T1'') (Some 0.5) 0]"
  by (simp add: rerankWithDiversity_def rerankWithOpenAI_def rerankChunks_def mapIndexed_def
        sortReranked_def scoreAt_def finalTopK_def Let_def diversityLoop_Cons)

text \<open>
  For \<open>topK \<ge> 1\<close> the cap of claim C4 holds: no ticket contributes more than
  \<open>ceil(K/2)\<close> results and at most \<open>K\<close> results are returned.
\<close>

lemma rerankWithDiversity_cap:
  assumes "0 < finalTopK cfg topK"
  shows "fromTicket t (rerankWithDiversity cfg outcome results topK) \<le> (finalTopK cfg topK + 1) div 2
       \<and> length (rerankWithDiversity cfg outcome results topK) \<le> finalTopK cfg topK"
proof (cases "results = []")
  case True
  then show ?thesis by (simp add: rerankWithDiversity_def)
next
  case False
  then have "rerankWithDiversity cfg outcome results topK
               = diversityLoop (finalTopK cfg topK)
                   (rerankWithOpenAI cfg outcome results (Some (length results))) [] {}"
    by (simp add: rerankWithDiversity_def)
  then show ?thesis
    using diversityLoop_cap[OF assms, of "[]" "{}" t
            "rerankWithOpenAI cfg outcome results (Some (length results))"]
      diversityLoop_length[of "[]" "finalTopK cfg topK"
            "rerankWithOpenAI cfg outcome results (Some (length results))" "{}"] assms
    by simp
qed

end
